theory Spec2Isabelle
  imports Main "HOL-Library.Word" "HOL-Library.Char_ord" "HOL-Library.List_Lexorder"
    "HOL-Library.Multiset"
begin

section \<open>The radix tree of tree.go\<close>

text \<open>
  Go strings are byte sequences; they are modelled by \<^typ>\<open>string\<close>, whose characters are
  bytes. A handler is an opaque value of type \<open>'h\<close>; a nil \<open>http.Handler\<close> is \<open>None\<close>.
  A panic is a value of type \<open>error\<close>. Since the tests of the repository recover from a
  panic and go on using the tree, a mutating function returns the node as the call left
  it together with the panic, if any.
\<close>

datatype nodeType = static | root | param | catchAllT

datatype error =
    OnlyOneWildcardPerSegment
  | WildcardsMustBeNamed
  | CatchAllWithinSegment
  | CatchAllMustBeLast
  | HandleAlreadyRegistered
  | AmbiguousPath
  | CatchAllOnlyAtEnd
  | IndexOutOfRange
  | MethodEmpty
  | PathMustBeginWithSlash
  | HandleNil

datatype 'h node = Node
  (path: string)
  (priority: "32 word")
  (nType: nodeType)
  (literals: "'h node list")
  (indices: string)
  (wild: "'h node option")
  (catchAll: "'h node option")
  (handle: "'h option")
  (wildcardNames: "string list")

text \<open>The zero value \<open>node{}\<close>.\<close>

definition emptyNode :: "'h node" where
  "emptyNode = Node [] 0 static [] [] None None None []"

text \<open>Assignments to single fields of a node.\<close>

fun set_path :: "string \<Rightarrow> 'h node \<Rightarrow> 'h node" where
  "set_path v (Node p pr t ls ix w c h ns) = Node v pr t ls ix w c h ns"

fun set_priority :: "32 word \<Rightarrow> 'h node \<Rightarrow> 'h node" where
  "set_priority v (Node p pr t ls ix w c h ns) = Node p v t ls ix w c h ns"

fun set_nType :: "nodeType \<Rightarrow> 'h node \<Rightarrow> 'h node" where
  "set_nType v (Node p pr t ls ix w c h ns) = Node p pr v ls ix w c h ns"

fun set_literals :: "'h node list \<Rightarrow> 'h node \<Rightarrow> 'h node" where
  "set_literals v (Node p pr t ls ix w c h ns) = Node p pr t v ix w c h ns"

fun set_indices :: "string \<Rightarrow> 'h node \<Rightarrow> 'h node" where
  "set_indices v (Node p pr t ls ix w c h ns) = Node p pr t ls v w c h ns"

fun set_wild :: "'h node option \<Rightarrow> 'h node \<Rightarrow> 'h node" where
  "set_wild v (Node p pr t ls ix w c h ns) = Node p pr t ls ix v c h ns"

fun set_catchAll :: "'h node option \<Rightarrow> 'h node \<Rightarrow> 'h node" where
  "set_catchAll v (Node p pr t ls ix w c h ns) = Node p pr t ls ix w v h ns"

fun set_handle :: "'h option \<Rightarrow> 'h node \<Rightarrow> 'h node" where
  "set_handle v (Node p pr t ls ix w c h ns) = Node p pr t ls ix w c v ns"

fun set_wildcardNames :: "string list \<Rightarrow> 'h node \<Rightarrow> 'h node" where
  "set_wildcardNames v (Node p pr t ls ix w c h ns) = Node p pr t ls ix w c h v"

subsection \<open>search\<close>

text \<open>
  \<open>strings.IndexByte\<close>: the position of the first occurrence of the byte, if there is one.
\<close>

fun indexByte :: "string \<Rightarrow> char \<Rightarrow> nat option" where
  "indexByte [] b = None"
| "indexByte (c # cs) b = (if c = b then Some 0 else map_option Suc (indexByte cs b))"

lemma size_literals_nth: "i < length (literals n) \<Longrightarrow> size (literals n ! i) < size n"
proof (cases n)
  case (Node p pr t ls ix w c h ns)
  assume "i < length (literals n)"
  with Node have "ls ! i \<in> set ls" by simp
  then have "size (ls ! i) \<le> size_list size ls"
    by (rule size_list_estimation') simp
  with Node show ?thesis by simp
qed

lemma size_literals_hd: "literals n \<noteq> [] \<Longrightarrow> size (hd (literals n)) < size n"
  using size_literals_nth [of 0 n] by (simp add: hd_conv_nth)

lemma size_wild: "wild n = Some w \<Longrightarrow> size w < size n"
  by (cases n) simp

lemma size_wild_literals_hd:
  "wild n = Some w \<Longrightarrow> literals w \<noteq> [] \<Longrightarrow> size (hd (literals w)) < size n"
  using size_wild [of n w] size_literals_hd [of w] by simp

text \<open>
  \<open>search\<close> is the method of the source; \<open>searchLiterals n p i\<close> is its loop over the bytes
  of \<open>n.indices\<close>, from position \<open>i\<close> on, and \<open>searchWild n p\<close> is the part of its body from
  the test \<open>len(path) > 0 && path[0] != '/'\<close> on, entered with the current value \<open>p\<close> of
  the variable \<open>path\<close>. The result \<open>Inr None\<close> is the pair of nils, \<open>Inl e\<close> a panic.
\<close>

function search :: "'h node \<Rightarrow> string \<Rightarrow> error + ('h node \<times> string list) option"
  and searchLiterals :: "'h node \<Rightarrow> string \<Rightarrow> nat \<Rightarrow> error + ('h node \<times> string list) option"
  and searchWild :: "'h node \<Rightarrow> string \<Rightarrow> error + ('h node \<times> string list) option"
where
  "search n p =
     (if p = [] then Inr (Some (n, []))
      else if take (length (path n)) p = path n then
        (let p1 = drop (length (path n)) p in
         if p1 = [] then Inr (Some (n, []))
         else (case searchLiterals n p1 0 of
                 Inl e \<Rightarrow> Inl e
               | Inr (Some r) \<Rightarrow> Inr (Some r)
               | Inr None \<Rightarrow> searchWild n p1))
      else searchWild n p)"
| "searchLiterals n p i =
     (if i < length (indices n) then
        (if indices n ! i = hd p then
           (if i < length (literals n) then
              (case search (literals n ! i) p of
                 Inl e \<Rightarrow> Inl e
               | Inr (Some r) \<Rightarrow> Inr (Some r)
               | Inr None \<Rightarrow> searchLiterals n p (Suc i))
            else Inl IndexOutOfRange)
         else searchLiterals n p (Suc i))
      else Inr None)"
| "searchWild n p =
     (if p \<noteq> [] \<and> hd p \<noteq> CHR ''/'' then
        (case wild n of
           Some w \<Rightarrow>
             (let e = indexByte p (CHR ''/'');
                  token = (case e of Some k \<Rightarrow> if 0 < k then take k p else p | None \<Rightarrow> p);
                  p2 = (case e of Some k \<Rightarrow> if 0 < k then drop k p else [] | None \<Rightarrow> [])
              in if p2 \<noteq> [] then
                   (if literals w \<noteq> [] then
                      (case search (hd (literals w)) p2 of
                         Inl e \<Rightarrow> Inl e
                       | Inr (Some (wFound, wParams)) \<Rightarrow> Inr (Some (wFound, token # wParams))
                       | Inr None \<Rightarrow>
                           (case catchAll n of Some c \<Rightarrow> Inr (Some (c, [p2])) | None \<Rightarrow> Inr None))
                    else (case catchAll n of Some c \<Rightarrow> Inr (Some (c, [p2])) | None \<Rightarrow> Inr None))
                 else if handle w \<noteq> None then Inr (Some (w, [token]))
                 else (case catchAll n of Some c \<Rightarrow> Inr (Some (c, [p2])) | None \<Rightarrow> Inr None))
         | None \<Rightarrow> (case catchAll n of Some c \<Rightarrow> Inr (Some (c, [p])) | None \<Rightarrow> Inr None))
      else Inr None)"
  by pat_completeness auto
termination
  by (relation "inv_image (less_than <*lex*> less_than <*lex*> less_than)
        (\<lambda>x. case x of
           Inl (n, p) \<Rightarrow> (size n, 2, 0)
         | Inr (Inl (n, p, i)) \<Rightarrow> (size n, 1, length (indices n) - i)
         | Inr (Inr (n, p)) \<Rightarrow> (size n, 0, 0))")
     (auto simp: size_literals_nth size_wild_literals_hd)

declare search.simps [simp del] searchLiterals.simps [simp del] searchWild.simps [simp del]

subsection \<open>Helpers of tree.go\<close>

fun longestCommonPrefix :: "string \<Rightarrow> string \<Rightarrow> nat" where
  "longestCommonPrefix (a # as) (b # bs) =
     (if a = b then Suc (longestCommonPrefix as bs) else 0)"
| "longestCommonPrefix _ _ = 0"

text \<open>
  \<open>findNextWildcard\<close> ranges over the runes of the path and compares each with the ASCII
  characters \<open>*\<close> and \<open>:\<close>. No byte of a multi-byte UTF-8 sequence is ASCII and an
  ill-formed byte is skipped alone, so the scan is a scan of the bytes, and the index is a
  byte offset. The result \<open>(0, -1)\<close> of the source is \<open>None\<close>.
\<close>

fun findNextWildcard :: "string \<Rightarrow> (char \<times> nat) option" where
  "findNextWildcard [] = None"
| "findNextWildcard (c # cs) =
     (if c = CHR ''*'' \<or> c = CHR '':'' then Some (c, 0)
      else map_option (\<lambda>(w, i). (w, Suc i)) (findNextWildcard cs))"

subsection \<open>normalizePath and denormalizePath\<close>

text \<open>
  \<open>scanName cs\<close> is the loop labelled \<open>walk\<close> of \<open>normalizePath\<close> over
  \<open>chars[start+1:]\<close>: the offset of the first \<open>/\<close>, or the length when there is none, and
  a panic at a second wildcard character before it.
\<close>

fun scanName :: "string \<Rightarrow> error + nat" where
  "scanName [] = Inr 0"
| "scanName (c # cs) =
     (if c = CHR ''/'' then Inr 0
      else if c = CHR '':'' \<or> c = CHR ''*'' then Inl OnlyOneWildcardPerSegment
      else (case scanName cs of Inl e \<Rightarrow> Inl e | Inr k \<Rightarrow> Inr (Suc k)))"

lemma scanName_le: "scanName cs = Inr k \<Longrightarrow> k \<le> length cs"
  by (induction cs arbitrary: k) (auto split: if_splits sum.splits)

function normalizeLoop ::
  "string \<Rightarrow> nat \<Rightarrow> string \<Rightarrow> string list \<Rightarrow> error + (string \<times> string list)"
where
  "normalizeLoop chars start normalizedPath names =
     (if start < length chars then
        (let c = chars ! start; normalizedPath' = normalizedPath @ [c] in
         if c \<noteq> CHR '':'' \<and> c \<noteq> CHR ''*'' then
           normalizeLoop chars (start + 1) normalizedPath' names
         else
           (case scanName (drop (start + 1) chars) of
              Inl e \<Rightarrow> Inl e
            | Inr k \<Rightarrow>
                (let tokenEnd = start + 1 + k in
                 if tokenEnd = start + 1 then Inl WildcardsMustBeNamed
                 else if c = CHR ''*'' \<and> 1 < start \<and> chars ! (start - 1) \<noteq> CHR ''/''
                   then Inl CatchAllWithinSegment
                 else if c = CHR ''*'' \<and> tokenEnd \<noteq> length chars
                   then Inl CatchAllMustBeLast
                 else normalizeLoop chars tokenEnd normalizedPath'
                        (names @ [take (tokenEnd - (start + 1)) (drop (start + 1) chars)]))))
      else Inr (normalizedPath, names))"
  by pat_completeness auto
termination
  by (relation "measure (\<lambda>(chars, start, acc, names). length chars - start)")
     (auto dest: scanName_le)

declare normalizeLoop.simps [simp del]

definition normalizePath :: "string \<Rightarrow> error + (string \<times> string list)" where
  "normalizePath p = normalizeLoop p 0 [] []"

text \<open>
  \<open>denormalizePath\<close> ranges over the runes of its argument and writes each back with
  \<open>WriteRune\<close>. \<open>runeWidth s\<close> is the number of bytes of the well-formed UTF-8 sequence
  at the head of \<open>s\<close>, as \<open>utf8.DecodeRuneInString\<close> accepts it, and 0 when the head is
  ill-formed: the loop then reads the rune U+FFFD of width one byte, which \<open>WriteRune\<close>
  encodes in three bytes.
\<close>

definition inRange :: "nat \<Rightarrow> nat \<Rightarrow> char \<Rightarrow> bool" where
  "inRange lo hi c \<longleftrightarrow> lo \<le> of_char c \<and> (of_char c :: nat) \<le> hi"

fun runeWidth :: "string \<Rightarrow> nat" where
  "runeWidth [] = 0"
| "runeWidth (b0 # bs) =
     (if inRange 0x00 0x7F b0 then 1
      else if inRange 0xC2 0xDF b0 then
        (case bs of b1 # _ \<Rightarrow> if inRange 0x80 0xBF b1 then 2 else 0 | _ \<Rightarrow> 0)
      else if inRange 0xE0 0xEF b0 then
        (case bs of
           b1 # b2 # _ \<Rightarrow>
             if inRange (if b0 = CHR 0xE0 then 0xA0 else 0x80)
                  (if b0 = CHR 0xED then 0x9F else 0xBF) b1 \<and> inRange 0x80 0xBF b2
             then 3 else 0
         | _ \<Rightarrow> 0)
      else if inRange 0xF0 0xF4 b0 then
        (case bs of
           b1 # b2 # b3 # _ \<Rightarrow>
             if inRange (if b0 = CHR 0xF0 then 0x90 else 0x80)
                  (if b0 = CHR 0xF4 then 0x8F else 0xBF) b1 \<and> inRange 0x80 0xBF b2
                \<and> inRange 0x80 0xBF b3
             then 4 else 0
         | _ \<Rightarrow> 0)
      else 0)"

definition runeError :: string where
  "runeError = [CHR 0xEF, CHR 0xBF, CHR 0xBD]"

lemma runeWidth_le: "runeWidth s \<le> length s"
  by (cases s) (auto split: list.splits)

function denormalizeLoop :: "string \<Rightarrow> string list \<Rightarrow> nat \<Rightarrow> string \<Rightarrow> error + string" where
  "denormalizeLoop s names i acc =
     (if s = [] then Inr acc
      else if runeWidth s = 0 then denormalizeLoop (tl s) names i (acc @ runeError)
      else if hd s = CHR '':'' \<or> hd s = CHR ''*'' then
        (if i < length names then denormalizeLoop (tl s) names (i + 1) (acc @ names ! i)
         else Inl IndexOutOfRange)
      else denormalizeLoop (drop (runeWidth s) s) names i (acc @ take (runeWidth s) s))"
  by pat_completeness auto
termination
  by (relation "measure (\<lambda>(s, names, i, acc). length s)") auto

declare denormalizeLoop.simps [simp del]

definition denormalizePath :: "string \<Rightarrow> string list \<Rightarrow> error + string" where
  "denormalizePath normalizedPath names = denormalizeLoop normalizedPath names 0 []"

subsection \<open>incrementLiteralPrio\<close>

text \<open>
  The loop of \<open>incrementLiteralPrio\<close> that swaps the child at \<open>newPos\<close> with its left
  neighbour while that neighbour has a smaller priority. Priorities are \<open>uint32\<close>.
\<close>

fun moveToFront :: "'h node list \<Rightarrow> nat \<Rightarrow> 32 word \<Rightarrow> 'h node list \<times> nat" where
  "moveToFront cs 0 prio = (cs, 0)"
| "moveToFront cs (Suc k) prio =
     (if priority (cs ! k) < prio
      then moveToFront (cs[k := cs ! Suc k, Suc k := cs ! k]) k prio
      else (cs, Suc k))"

definition incrementLiteralPrio :: "'h node \<Rightarrow> nat \<Rightarrow> 'h node \<times> (error + nat)" where
  "incrementLiteralPrio n pos =
     (if length (literals n) \<le> pos then (n, Inl IndexOutOfRange)
      else
        (let cs = (literals n)[pos := set_priority (priority (literals n ! pos) + 1) (literals n ! pos)];
             prio = priority (cs ! pos);
             (cs', newPos) = moveToFront cs pos prio;
             n' = set_literals cs' n
         in if newPos \<noteq> pos then
              (if pos + 1 \<le> length (indices n) then
                 (set_indices (take newPos (indices n) @ take 1 (drop pos (indices n))
                    @ drop newPos (take pos (indices n)) @ drop (pos + 1) (indices n)) n',
                  Inr newPos)
               else (n', Inl IndexOutOfRange))
            else (n', Inr newPos)))"

subsection \<open>insertChild\<close>

text \<open>
  Both panics of \<open>insertChild\<close> for an ambiguous path first build their message with
  \<open>denormalizePath(fullpath, n.wildcardNames)\<close>; when that call indexes past the end of
  the names, the panic is the runtime's and the message is never built.
\<close>

definition ambiguous :: "string \<Rightarrow> 'h node \<Rightarrow> error" where
  "ambiguous fullpath n =
     (case denormalizePath fullpath (wildcardNames n) of
        Inl e \<Rightarrow> e
      | Inr existingPath \<Rightarrow> AmbiguousPath)"

lemma findNextWildcard_less: "findNextWildcard p = Some (w, i) \<Longrightarrow> i < length p"
  by (induction p arbitrary: i) (auto split: if_splits)

function insertChild ::
  "string \<Rightarrow> 'h option \<Rightarrow> string list \<Rightarrow> 'h node \<Rightarrow> string \<Rightarrow> 'h node \<times> error option"
where
  "insertChild fullpath hdl names n p =
     (case findNextWildcard p of
        None \<Rightarrow> (set_wildcardNames names (set_handle hdl (set_path p n)), None)
      | Some (wildcard, i) \<Rightarrow>
          if wildcard = CHR '':'' then
            (if wild n \<noteq> None then (n, Some (ambiguous fullpath n))
             else
               (let n1 = (if 0 < i then set_path (take i p) n else n);
                    p1 = (if 0 < i then drop i p else p);
                    w = Node '':'' 1 param [] [] None None None []
                in if 1 < length p1 then
                     (case insertChild fullpath hdl names
                             (Node [] 1 static [] [] None None None []) (drop 1 p1) of
                        (child, e) \<Rightarrow> (set_wild (Some (set_literals [child] w)) n1, e))
                   else
                     (set_wild (Some (set_wildcardNames names (set_handle hdl w))) n1, None)))
          else
            (if i \<noteq> length p - 1 then (n, Some CatchAllOnlyAtEnd)
             else if catchAll n \<noteq> None then (n, Some (ambiguous fullpath n))
             else
               (let n1 = (if path n = [] then set_path (take i p) n else n)
                in (set_catchAll (Some (Node ''*'' 1 catchAllT [] [] None None hdl names)) n1,
                    None))))"
  by pat_completeness auto
termination
  by (relation "measure (\<lambda>(fullpath, hdl, names, n, p). length p)")
     (auto dest: findNextWildcard_less)

declare insertChild.simps [simp del]

subsection \<open>addRoute\<close>

text \<open>The split of a node at the position \<open>i\<close> where the path \<open>p\<close> leaves its segment.\<close>

definition splitNode :: "'h node \<Rightarrow> nat \<Rightarrow> string \<Rightarrow> 'h node" where
  "splitNode n i p =
     (let child = Node (drop i (path n)) (priority n - 1) static (literals n) (indices n)
                    (wild n) (catchAll n) (handle n) (wildcardNames n)
      in Node (take i p) (priority n) (nType n) [child] [path n ! i] None None None
           (wildcardNames n))"

text \<open>The position of the first byte of \<open>n.indices\<close> equal to the next byte of the path.\<close>

fun findIndex :: "char \<Rightarrow> string \<Rightarrow> nat option" where
  "findIndex b [] = None"
| "findIndex b (c # cs) = (if c = b then Some 0 else map_option Suc (findIndex b cs))"

lemma sel_set [simp]:
  "path (set_path v0 n) = v0"
  "priority (set_path v0 n) = priority n"
  "nType (set_path v0 n) = nType n"
  "literals (set_path v0 n) = literals n"
  "indices (set_path v0 n) = indices n"
  "wild (set_path v0 n) = wild n"
  "catchAll (set_path v0 n) = catchAll n"
  "handle (set_path v0 n) = handle n"
  "wildcardNames (set_path v0 n) = wildcardNames n"
  "path (set_priority v1 n) = path n"
  "priority (set_priority v1 n) = v1"
  "nType (set_priority v1 n) = nType n"
  "literals (set_priority v1 n) = literals n"
  "indices (set_priority v1 n) = indices n"
  "wild (set_priority v1 n) = wild n"
  "catchAll (set_priority v1 n) = catchAll n"
  "handle (set_priority v1 n) = handle n"
  "wildcardNames (set_priority v1 n) = wildcardNames n"
  "path (set_nType v2 n) = path n"
  "priority (set_nType v2 n) = priority n"
  "nType (set_nType v2 n) = v2"
  "literals (set_nType v2 n) = literals n"
  "indices (set_nType v2 n) = indices n"
  "wild (set_nType v2 n) = wild n"
  "catchAll (set_nType v2 n) = catchAll n"
  "handle (set_nType v2 n) = handle n"
  "wildcardNames (set_nType v2 n) = wildcardNames n"
  "path (set_literals v3 n) = path n"
  "priority (set_literals v3 n) = priority n"
  "nType (set_literals v3 n) = nType n"
  "literals (set_literals v3 n) = v3"
  "indices (set_literals v3 n) = indices n"
  "wild (set_literals v3 n) = wild n"
  "catchAll (set_literals v3 n) = catchAll n"
  "handle (set_literals v3 n) = handle n"
  "wildcardNames (set_literals v3 n) = wildcardNames n"
  "path (set_indices v4 n) = path n"
  "priority (set_indices v4 n) = priority n"
  "nType (set_indices v4 n) = nType n"
  "literals (set_indices v4 n) = literals n"
  "indices (set_indices v4 n) = v4"
  "wild (set_indices v4 n) = wild n"
  "catchAll (set_indices v4 n) = catchAll n"
  "handle (set_indices v4 n) = handle n"
  "wildcardNames (set_indices v4 n) = wildcardNames n"
  "path (set_wild v5 n) = path n"
  "priority (set_wild v5 n) = priority n"
  "nType (set_wild v5 n) = nType n"
  "literals (set_wild v5 n) = literals n"
  "indices (set_wild v5 n) = indices n"
  "wild (set_wild v5 n) = v5"
  "catchAll (set_wild v5 n) = catchAll n"
  "handle (set_wild v5 n) = handle n"
  "wildcardNames (set_wild v5 n) = wildcardNames n"
  "path (set_catchAll v6 n) = path n"
  "priority (set_catchAll v6 n) = priority n"
  "nType (set_catchAll v6 n) = nType n"
  "literals (set_catchAll v6 n) = literals n"
  "indices (set_catchAll v6 n) = indices n"
  "wild (set_catchAll v6 n) = wild n"
  "catchAll (set_catchAll v6 n) = v6"
  "handle (set_catchAll v6 n) = handle n"
  "wildcardNames (set_catchAll v6 n) = wildcardNames n"
  "path (set_handle v7 n) = path n"
  "priority (set_handle v7 n) = priority n"
  "nType (set_handle v7 n) = nType n"
  "literals (set_handle v7 n) = literals n"
  "indices (set_handle v7 n) = indices n"
  "wild (set_handle v7 n) = wild n"
  "catchAll (set_handle v7 n) = catchAll n"
  "handle (set_handle v7 n) = v7"
  "wildcardNames (set_handle v7 n) = wildcardNames n"
  "path (set_wildcardNames v8 n) = path n"
  "priority (set_wildcardNames v8 n) = priority n"
  "nType (set_wildcardNames v8 n) = nType n"
  "literals (set_wildcardNames v8 n) = literals n"
  "indices (set_wildcardNames v8 n) = indices n"
  "wild (set_wildcardNames v8 n) = wild n"
  "catchAll (set_wildcardNames v8 n) = catchAll n"
  "handle (set_wildcardNames v8 n) = handle n"
  "wildcardNames (set_wildcardNames v8 n) = v8"
  by (cases n; simp)+

lemma size_set [simp]:
  "size (set_path a n) = size n"
  "size (set_priority b n) = size n"
  "size (set_nType c n) = size n"
  "size (set_indices d n) = size n"
  "size (set_wildcardNames e n) = size n"
  by (cases n; simp)+

lemma lcp_le: "longestCommonPrefix a b \<le> length a" "longestCommonPrefix a b \<le> length b"
  by (induction a b rule: longestCommonPrefix.induct) auto

lemma lcp_neq:
  "longestCommonPrefix a b < length a \<Longrightarrow> longestCommonPrefix a b < length b \<Longrightarrow>
   a ! longestCommonPrefix a b \<noteq> b ! longestCommonPrefix a b"
  by (induction a b rule: longestCommonPrefix.induct) auto

lemma moveToFront_mset:
  "k < length cs \<Longrightarrow> moveToFront cs k prio = (cs', j) \<Longrightarrow>
   j \<le> k \<and> length cs' = length cs \<and> mset cs' = mset cs"
proof (induction cs k prio arbitrary: cs' j rule: moveToFront.induct)
  case (1 cs prio)
  then show ?case by simp
next
  case (2 cs k prio)
  show ?case
  proof (cases "priority (cs ! k) < prio")
    case True
    with 2 show ?thesis by (auto simp: mset_swap)
  next
    case False
    with 2 show ?thesis by auto
  qed
qed

lemma incrementLiteralPrio_size:
  assumes "incrementLiteralPrio n pos = (n', Inr newPos)"
  shows "newPos < length (literals n') \<and>
    (\<exists>k < length (literals n). size (literals n' ! newPos) = size (literals n ! k))"
proof -
  let ?cs = "(literals n)[pos := set_priority (priority (literals n ! pos) + 1) (literals n ! pos)]"
  from assms have pos: "pos < length (literals n)"
    by (auto simp: incrementLiteralPrio_def split: if_splits)
  obtain cs' j where mv: "moveToFront ?cs pos (priority (?cs ! pos)) = (cs', j)"
    by (cases "moveToFront ?cs pos (priority (?cs ! pos))") auto
  from pos mv have m: "j \<le> pos" "length cs' = length (literals n)" "mset cs' = mset ?cs"
    using moveToFront_mset [of pos ?cs "priority (?cs ! pos)" cs' j] by auto
  from assms pos mv have eq: "literals n' = cs'" "newPos = j"
    by (auto simp: incrementLiteralPrio_def Let_def split: if_splits)
  from m pos have "cs' ! j \<in> set ?cs"
    by (metis le_less_trans nth_mem set_mset_mset)
  then obtain k where k: "k < length (literals n)" "cs' ! j = ?cs ! k"
    by (auto simp: in_set_conv_nth)
  then have "size (cs' ! j) = size (literals n ! k)"
    by (cases "k = pos") auto
  with k m pos eq show ?thesis by auto
qed

lemma splitNode_sel [simp]:
  "path (splitNode n i p) = take i p"
  "priority (splitNode n i p) = priority n"
  "nType (splitNode n i p) = nType n"
  "literals (splitNode n i p) =
     [Node (drop i (path n)) (priority n - 1) static (literals n) (indices n)
        (wild n) (catchAll n) (handle n) (wildcardNames n)]"
  "indices (splitNode n i p) = [path n ! i]"
  "wild (splitNode n i p) = None"
  "catchAll (splitNode n i p) = None"
  "handle (splitNode n i p) = None"
  "wildcardNames (splitNode n i p) = wildcardNames n"
  by (simp_all add: splitNode_def)

lemma size_node_eq:
  "size n = Suc (size_list size (literals n) + size_option size (wild n) +
     size_option size (catchAll n) + size (handle n))"
  by (cases n) simp

text \<open>
  \<open>walk\<close> is the loop labelled \<open>walk\<close> of \<open>addRoute\<close>, one call for each pass, with \<open>n\<close>
  and \<open>p\<close> the values of the variables \<open>n\<close> and \<open>path\<close> at the head of the pass. The source
  moves the pointer \<open>n\<close> down the tree and writes through it; here the call on the child
  returns the child as the rest of the loop leaves it, and the pass puts it back in its
  place. The child appended for an unseen byte is followed by its pointer in the source,
  that is, at the position \<open>incrementLiteralPrio\<close> moved it to.
\<close>

function walk ::
  "string \<Rightarrow> 'h option \<Rightarrow> string list \<Rightarrow> 'h node \<Rightarrow> string \<Rightarrow> 'h node \<times> error option"
where
  "walk fullpath hdl names n p =
     (let i = longestCommonPrefix (path n) p;
          n1 = (if i < length (path n) then splitNode n i p else n);
          p1 = drop i p
      in if p1 \<noteq> [] then
           (let nextChar = hd p1 in
            if nextChar = CHR '':'' \<and> wild n1 \<noteq> None \<and> 1 < length p1 then
              (case walk fullpath hdl names (the (wild n1)) p1 of
                 (w, e) \<Rightarrow> (set_wild (Some w) n1, e))
            else if nType n1 = param \<and> literals n1 \<noteq> [] then
              (case walk fullpath hdl names
                      (set_priority (priority (hd (literals n1)) + 1) (hd (literals n1))) p1 of
                 (c, e) \<Rightarrow> (set_literals (c # tl (literals n1)) n1, e))
            else
              (case findIndex nextChar (indices n1) of
                 Some k \<Rightarrow>
                   (case incrementLiteralPrio n1 k of
                      (n2, Inl e) \<Rightarrow> (n2, Some e)
                    | (n2, Inr newPos) \<Rightarrow>
                        (case walk fullpath hdl names (literals n2 ! newPos) p1 of
                           (c, e) \<Rightarrow> (set_literals ((literals n2)[newPos := c]) n2, e)))
               | None \<Rightarrow>
                   if nextChar \<noteq> CHR '':'' \<and> nextChar \<noteq> CHR ''*'' then
                     (case incrementLiteralPrio
                             (set_literals (literals n1 @ [emptyNode])
                                (set_indices (indices n1 @ [nextChar]) n1))
                             (length (indices n1 @ [nextChar]) - 1) of
                        (n2, Inl e) \<Rightarrow> (n2, Some e)
                      | (n2, Inr newPos) \<Rightarrow>
                          (case insertChild fullpath hdl names (literals n2 ! newPos) p1 of
                             (c, e) \<Rightarrow> (set_literals ((literals n2)[newPos := c]) n2, e)))
                   else insertChild fullpath hdl names n1 p1))
         else if handle n1 \<noteq> None then (n1, Some HandleAlreadyRegistered)
         else (set_wildcardNames names (set_handle hdl n1), None))"
  by pat_completeness auto
termination
proof (relation "measure (\<lambda>(fullpath, hdl, names, n, p).
         2 * size n + (if nType n = param then 1 else 0))", goal_cases)
  case 1
  show ?case by simp
next
  case (2 fullpath hdl names n p i n1 p1 nextChar)
  then show ?case
    by (auto split: if_splits dest: size_wild)
next
  case (3 fullpath hdl names n p i n1 p1 nextChar)
  then show ?case
    using size_literals_hd [of n] size_node_eq [of n]
    by (auto split: if_splits)
next
  case (4 fullpath hdl names n p i n1 p1 nextChar k n2 y newPos)
  show ?case
  proof (cases "i < length (path n)")
    case True
    from 4 have "p1 \<noteq> []" by simp
    with 4 have "i < length p" by simp
    with True 4 have "path n ! i \<noteq> p ! i"
      using lcp_neq [of "path n" p] by simp
    moreover from 4 \<open>i < length p\<close> have "nextChar = p ! i"
      by (simp add: hd_drop_conv_nth)
    ultimately show ?thesis using 4 True by (auto split: if_splits)
  next
    case False
    with 4 have "incrementLiteralPrio n k = (n2, Inr newPos)" by simp
    from incrementLiteralPrio_size [OF this]
    obtain j where "j < length (literals n)" "size (literals n2 ! newPos) = size (literals n ! j)"
      by auto
    then show ?thesis
      using size_literals_nth [of j n] by simp
  qed
qed

declare walk.simps [simp del]

definition addRoute :: "'h node \<Rightarrow> string \<Rightarrow> 'h option \<Rightarrow> 'h node \<times> error option" where
  "addRoute n fullpath hdl =
     (let n1 = set_priority (priority n + 1) n in
      case normalizePath fullpath of
        Inl e \<Rightarrow> (n1, Some e)
      | Inr (p, names) \<Rightarrow>
          if length (path n1) = 0 \<and> length (indices n1) = 0
          then insertChild fullpath hdl names (set_nType root n1) p
          else walk fullpath hdl names n1 p)"

section \<open>The router of router.go\<close>

text \<open>
  The map \<open>trees\<close> from a method to the root of its tree is an association list with one
  entry for each method. Go ranges over a map in an order of its choice; the model ranges
  in the order of the list. Of the fields of \<open>Router\<close>, \<open>lookup\<close>, \<open>allowed\<close> and
  \<open>Handler\<close> read and write \<open>trees\<close> and \<open>globalAllowed\<close> only.
\<close>

record 'h Router =
  trees :: "(string \<times> 'h node) list"
  globalAllowed :: string

record Param =
  Key :: string
  Value :: string

definition catchAllParam :: string where
  "catchAllParam = ''$catchAllParam''"

definition MethodOptions :: string where
  "MethodOptions = ''OPTIONS''"

definition New :: "'h Router" where
  "New = \<lparr>trees = [], globalAllowed = []\<rparr>"

subsection \<open>allowed\<close>

text \<open>The loop over the trees for a specific path; \<open>acc\<close> is the slice \<open>allowed\<close>.\<close>

fun allowedLoop ::
  "(string \<times> 'h node) list \<Rightarrow> string \<Rightarrow> string \<Rightarrow> string list \<Rightarrow> error + string list"
where
  "allowedLoop [] p reqMethod acc = Inr acc"
| "allowedLoop ((m, t) # ts) p reqMethod acc =
     (if m = reqMethod \<or> m = MethodOptions then allowedLoop ts p reqMethod acc
      else
        (case search t p of
           Inl e \<Rightarrow> Inl e
         | Inr None \<Rightarrow> allowedLoop ts p reqMethod acc
         | Inr (Some (foundNode, ps)) \<Rightarrow>
             if handle foundNode \<noteq> None then allowedLoop ts p reqMethod (acc @ [m])
             else allowedLoop ts p reqMethod acc))"

text \<open>
  The insertion sort of \<open>allowed\<close>: \<open>sortInner xs j\<close> is the inner loop entered with
  \<open>j\<close>, \<open>sortOuter xs i\<close> the outer loop entered with \<open>i\<close>. Go compares strings byte by
  byte, which is the lexicographic order of \<^typ>\<open>string\<close>.
\<close>

fun sortInner :: "string list \<Rightarrow> nat \<Rightarrow> string list" where
  "sortInner xs 0 = xs"
| "sortInner xs (Suc j) =
     (if xs ! Suc j < xs ! j then sortInner (xs[Suc j := xs ! j, j := xs ! Suc j]) j else xs)"

function sortOuter :: "string list \<Rightarrow> nat \<Rightarrow> string list" where
  "sortOuter xs i = (if i < length xs then sortOuter (sortInner xs i) (i + 1) else xs)"
  by pat_completeness auto

lemma length_sortInner [simp]: "length (sortInner xs j) = length xs"
  by (induction xs j rule: sortInner.induct) auto

termination sortOuter
  by (relation "measure (\<lambda>(xs, i). length xs - i)") auto

declare sortOuter.simps [simp del]

text \<open>\<open>strings.Join\<close>.\<close>

fun Join :: "string list \<Rightarrow> string \<Rightarrow> string" where
  "Join [] sep = []"
| "Join [x] sep = x"
| "Join (x # y # ys) sep = x @ sep @ Join (y # ys) sep"

definition allowed :: "'h Router \<Rightarrow> string \<Rightarrow> string \<Rightarrow> error + string" where
  "allowed r p reqMethod =
     (case (if p = ''*'' then
              (if reqMethod = [] then Inr (Inr (filter (\<lambda>m. m \<noteq> MethodOptions) (map fst (trees r))))
               else Inr (Inl (globalAllowed r)))
            else (case allowedLoop (trees r) p reqMethod [] of
                    Inl e \<Rightarrow> Inl e
                  | Inr acc \<Rightarrow> Inr (Inr acc))) of
        Inl e \<Rightarrow> Inl e
      | Inr (Inl cached) \<Rightarrow> Inr cached
      | Inr (Inr acc) \<Rightarrow>
          if 0 < length acc then Inr (Join (sortOuter (acc @ [MethodOptions]) 1) '', '')
          else Inr [])"

subsection \<open>lookup\<close>

text \<open>
  The loop of \<open>lookup\<close> over \<open>nodeFound.wildcardNames\<close>, from index \<open>i\<close> on, writing
  into the slice \<open>params\<close> made with the length of \<open>paramValues\<close>.
\<close>

fun zipParams :: "string list \<Rightarrow> string list \<Rightarrow> nat \<Rightarrow> Param list \<Rightarrow> error + Param list" where
  "zipParams [] paramValues i params = Inr params"
| "zipParams (name # rest) paramValues i params =
     (if i < length params \<and> i < length paramValues then
        zipParams rest paramValues (Suc i)
          (params[i := \<lparr>Key = (if name = ''*'' then catchAllParam else name),
                         Value = paramValues ! i\<rparr>])
      else Inl IndexOutOfRange)"

definition lookup :: "'h Router \<Rightarrow> string \<Rightarrow> string \<Rightarrow> error + ('h \<times> Param list) option" where
  "lookup r m p =
     (case map_of (trees r) m of
        None \<Rightarrow> Inr None
      | Some rootNode \<Rightarrow>
          (case search rootNode p of
             Inl e \<Rightarrow> Inl e
           | Inr None \<Rightarrow> Inr None
           | Inr (Some (nodeFound, paramValues)) \<Rightarrow>
               (case handle nodeFound of
                  None \<Rightarrow> Inr None
                | Some h \<Rightarrow>
                    if 0 < length paramValues then
                      (case zipParams (wildcardNames nodeFound) paramValues 0
                              (replicate (length paramValues) \<lparr>Key = [], Value = []\<rparr>) of
                         Inl e \<Rightarrow> Inl e
                       | Inr params \<Rightarrow> Inr (Some (h, params)))
                    else Inr (Some (h, [])))))"

subsection \<open>Handler\<close>

text \<open>The assignment \<open>r.trees[method] = root\<close>.\<close>

fun setTree :: "string \<Rightarrow> 'h node \<Rightarrow> (string \<times> 'h node) list \<Rightarrow> (string \<times> 'h node) list" where
  "setTree m t [] = [(m, t)]"
| "setTree m t ((k, v) # ts) = (if k = m then (m, t) # ts else (k, v) # setTree m t ts)"

text \<open>
  \<open>Handler\<close> returns the router as the call left it and the panic, if any. The tree is
  put into the map before \<open>addRoute\<close> runs and \<open>addRoute\<close> writes through the pointer, so
  the map holds the tree as \<open>addRoute\<close> left it also when it panicked.
\<close>

definition Handler ::
  "'h Router \<Rightarrow> string \<Rightarrow> string \<Rightarrow> 'h option \<Rightarrow> 'h Router \<times> error option"
where
  "Handler r m p hdl =
     (if m = [] then (r, Some MethodEmpty)
      else if length p < 1 \<or> hd p \<noteq> CHR ''/'' then (r, Some PathMustBeginWithSlash)
      else if hdl = None then (r, Some HandleNil)
      else
        (case map_of (trees r) m of
           Some rootNode \<Rightarrow>
             (case addRoute rootNode p hdl of
                (rootNode', e) \<Rightarrow> (r\<lparr>trees := setTree m rootNode' (trees r)\<rparr>, e))
         | None \<Rightarrow>
             (let r1 = r\<lparr>trees := setTree m emptyNode (trees r)\<rparr> in
              case allowed r1 ''*'' [] of
                Inl e \<Rightarrow> (r1, Some e)
              | Inr s \<Rightarrow>
                  (case addRoute emptyNode p hdl of
                     (rootNode', e) \<Rightarrow>
                       (r1\<lparr>trees := setTree m rootNode' (trees r1), globalAllowed := s\<rparr>, e)))))"

text \<open>
  A sequence of registrations, each on the state the one before left, up to the first panic.
\<close>

fun addRoutes :: "'h node \<Rightarrow> (string \<times> 'h) list \<Rightarrow> 'h node \<times> error option" where
  "addRoutes n [] = (n, None)"
| "addRoutes n ((p, h) # rs) =
     (case addRoute n p (Some h) of
        (n', None) \<Rightarrow> addRoutes n' rs
      | (n', Some e) \<Rightarrow> (n', Some e))"

fun Handlers :: "'h Router \<Rightarrow> (string \<times> string \<times> 'h) list \<Rightarrow> 'h Router \<times> error option" where
  "Handlers r [] = (r, None)"
| "Handlers r ((m, p, h) # rs) =
     (case Handler r m p (Some h) of
        (r', None) \<Rightarrow> Handlers r' rs
      | (r', Some e) \<Rightarrow> (r', Some e))"

section \<open>The shape of the trees that registration builds\<close>

text \<open>The nodes of a subtree, the node itself first.\<close>

fun nodes :: "'h node \<Rightarrow> 'h node list" where
  "nodes (Node p pr t ls ix w c h ns) =
     Node p pr t ls ix w c h ns # concat (map nodes ls)
       @ (case w of None \<Rightarrow> [] | Some x \<Rightarrow> nodes x)
       @ (case c of None \<Rightarrow> [] | Some x \<Rightarrow> nodes x)"

text \<open>The number of nodes of a subtree that carry a handler.\<close>

definition handlers :: "'h node \<Rightarrow> nat" where
  "handlers n = length (filter (\<lambda>x. handle x \<noteq> None) (nodes n))"

definition isWild :: "char \<Rightarrow> bool" where
  "isWild c \<longleftrightarrow> c = CHR '':'' \<or> c = CHR ''*''"

text \<open>The number of wildcard characters of a normalized path.\<close>

definition nsent :: "string \<Rightarrow> nat" where
  "nsent p = length (filter isWild p)"

text \<open>
  A normalized path as \<open>normalizePath\<close> returns it: after a \<open>:\<close> comes a \<open>/\<close> or the end,
  after a \<open>*\<close> the end.
\<close>

fun normOK :: "string \<Rightarrow> bool" where
  "normOK [] = True"
| "normOK (c # cs) =
     (if c = CHR '':'' then (cs = [] \<or> hd cs = CHR ''/'') \<and> normOK cs
      else if c = CHR ''*'' then cs = []
      else normOK cs)"

text \<open>
  The invariant of a tree. \<open>wf d n\<close> is for a node at a literal position (the root, a
  literal child, the continuation of a parameter) below \<open>d\<close> wildcards: its kind, its
  segment, the alignment of \<open>indices\<close> with \<open>literals\<close>, its priority, the number of its
  parameter names, and the invariant of its children. \<open>wfParam d n\<close> is for a parameter
  node and \<open>wfCatch d n\<close> for a catch-all node, each the \<open>d\<close>-th wildcard on its path.
\<close>

fun wfCatch :: "nat \<Rightarrow> 'h node \<Rightarrow> bool" where
  "wfCatch d (Node p pr t ls ix w c h ns) \<longleftrightarrow>
     p = ''*'' \<and> pr = 1 \<and> t = catchAllT \<and> ls = [] \<and> ix = [] \<and> w = None \<and> c = None
     \<and> h \<noteq> None \<and> length ns = d"

fun wf :: "nat \<Rightarrow> 'h node \<Rightarrow> bool"
  and wfParam :: "nat \<Rightarrow> 'h node \<Rightarrow> bool"
where
  "wf d (Node p pr t ls ix w c h ns) \<longleftrightarrow>
     (t = static \<or> t = root) \<and> p \<noteq> [] \<and> (\<forall>x \<in> set p. \<not> isWild x)
     \<and> ix = map (\<lambda>x. hd (path x)) ls \<and> distinct ix
     \<and> (\<forall>x \<in> set ls. wf d x)
     \<and> (case w of None \<Rightarrow> True | Some x \<Rightarrow> wfParam (Suc d) x)
     \<and> (case c of None \<Rightarrow> True | Some x \<Rightarrow> wfCatch (Suc d) x)
     \<and> (h \<noteq> None \<longrightarrow> length ns = d)
     \<and> pr = of_nat (handlers (Node p pr t ls ix w c h ns))"
| "wfParam d (Node p pr t ls ix w c h ns) \<longleftrightarrow>
     t = param \<and> p = '':'' \<and> w = None \<and> c = None \<and> length ls \<le> 1
     \<and> (ix = [] \<or> ix = map (\<lambda>x. hd (path x)) ls)
     \<and> (\<forall>x \<in> set ls. wf d x \<and> hd (path x) = CHR ''/'')
     \<and> (h \<noteq> None \<longrightarrow> length ns = d)"

text \<open>The invariant of the root of a tree that holds a route.\<close>

definition wfRoot :: "'h node \<Rightarrow> bool" where
  "wfRoot n \<longleftrightarrow> wf 0 n \<and> hd (path n) = CHR ''/''"

subsection \<open>Reordering of the literal children\<close>

lemma handlers_Node:
  "handlers (Node p pr t ls ix w c h ns) =
     (if h \<noteq> None then 1 else 0) + sum_list (map handlers ls)
       + (case w of None \<Rightarrow> 0 | Some x \<Rightarrow> handlers x)
       + (case c of None \<Rightarrow> 0 | Some x \<Rightarrow> handlers x)"
proof -
  have "length (filter (\<lambda>x. handle x \<noteq> None) (concat (map nodes xs))) = sum_list (map handlers xs)"
    for xs :: "'a node list"
    by (induction xs) (auto simp: handlers_def)
  then show ?thesis
    by (cases w; cases c) (simp_all add: handlers_def)
qed

definition moveElem :: "'a list \<Rightarrow> nat \<Rightarrow> nat \<Rightarrow> 'a list" where
  "moveElem xs k j = take j xs @ [xs ! k] @ drop j (take k xs) @ drop (Suc k) xs"

lemma moveToFront_moveElem:
  "k < length cs \<Longrightarrow> moveToFront cs k prio = (cs', j) \<Longrightarrow> j \<le> k \<and> cs' = moveElem cs k j"
proof (induction cs k prio arbitrary: cs' j rule: moveToFront.induct)
  case (1 cs prio)
  then show ?case using Cons_nth_drop_Suc [of 0 cs] by (auto simp: moveElem_def)
next
  case (2 cs k prio)
  show ?case
  proof (cases "priority (cs ! k) < prio")
    case True
    let ?cs2 = "cs[k := cs ! Suc k, Suc k := cs ! k]"
    from 2 True have mv: "moveToFront ?cs2 k prio = (cs', j)" by simp
    from 2 have k: "k < length ?cs2" by simp
    from "2.IH" [OF True k mv] have j: "j \<le> k" and cs': "cs' = moveElem ?cs2 k j" by auto
    from 2 have d: "drop (Suc k) ?cs2 = cs ! k # drop (Suc (Suc k)) cs"
      by (simp add: drop_update_cancel Cons_nth_drop_Suc [symmetric] )
    from 2 j have "moveElem ?cs2 k j = moveElem cs (Suc k) j"
      unfolding moveElem_def d
      by (simp add: take_Suc_conv_app_nth)
    with j cs' show ?thesis by simp
  next
    case False
    with 2 have "cs' = cs" "j = Suc k" by auto
    with 2 show ?thesis
      by (simp add: moveElem_def id_take_nth_drop [symmetric])
  qed
qed


lemma moveElem_length [simp]: "j \<le> k \<Longrightarrow> k < length xs \<Longrightarrow> length (moveElem xs k j) = length xs"
  by (simp add: moveElem_def)

lemma moveElem_nth [simp]: "j \<le> k \<Longrightarrow> k < length xs \<Longrightarrow> moveElem xs k j ! j = xs ! k"
  by (simp add: moveElem_def nth_append)

lemma moveElem_map: "k < length xs \<Longrightarrow> map f (moveElem xs k j) = moveElem (map f xs) k j"
  by (simp add: moveElem_def take_map drop_map)

lemma moveElem_same: "k < length xs \<Longrightarrow> moveElem xs k k = xs"
  by (simp add: moveElem_def id_take_nth_drop [symmetric])

lemma take_split: "j \<le> k \<Longrightarrow> take j xs @ drop j (take k xs) = take k xs"
proof -
  assume "j \<le> k"
  then have "take j (take k xs) = take j xs" by (simp add: min_def)
  then show ?thesis using append_take_drop_id [of j "take k xs"] by simp
qed

lemma moveElem_mset: "j \<le> k \<Longrightarrow> k < length xs \<Longrightarrow> mset (moveElem xs k j) = mset xs"
proof -
  assume a: "j \<le> k" "k < length xs"
  have "mset xs = mset (take k xs @ xs ! k # drop (Suc k) xs)"
    using a by (simp only: id_take_nth_drop [symmetric])
  also have "\<dots> = mset (take k xs) + {#xs ! k#} + mset (drop (Suc k) xs)" by simp
  also have "mset (take k xs) = mset (take j xs) + mset (drop j (take k xs))"
    using take_split [OF a(1), of xs] by (metis mset_append)
  finally show ?thesis by (simp add: moveElem_def)
qed

lemma moveElem_update:
  "j \<le> k \<Longrightarrow> k < length xs \<Longrightarrow> (moveElem (xs[k := b]) k j)[j := c] = moveElem (xs[k := c]) k j"
  by (simp add: moveElem_def list_update_append)

lemma moveElem_set:
  "j \<le> k \<Longrightarrow> k < length xs \<Longrightarrow>
   set (moveElem (xs[k := c]) k j) = insert c (set (take k xs) \<union> set (drop (Suc k) xs))"
proof -
  assume a: "j \<le> k" "k < length xs"
  have "set (take k xs) = set (take j xs) \<union> set (drop j (take k xs))"
    using take_split [OF a(1), of xs] by (metis set_append)
  with a show ?thesis by (auto simp: moveElem_def)
qed


lemma take1_drop: "k < length xs \<Longrightarrow> take (Suc 0) (drop k xs) = [xs ! k]"
  using Cons_nth_drop_Suc [of k xs, symmetric] by simp

lemma set_indices_same [simp]: "indices m = v \<Longrightarrow> set_indices v m = m"
  by (cases m) auto

lemma incrementLiteralPrio_aligned:
  assumes "k < length (literals n)" "length (indices n) = length (literals n)"
  shows "\<exists>j \<le> k. incrementLiteralPrio n k =
     (set_indices (moveElem (indices n) k j)
        (set_literals (moveElem ((literals n)[k := set_priority (priority (literals n ! k) + 1) (literals n ! k)]) k j) n),
      Inr j)"
proof -
  let ?cs = "(literals n)[k := set_priority (priority (literals n ! k) + 1) (literals n ! k)]"
  obtain cs' j where mv: "moveToFront ?cs k (priority (?cs ! k)) = (cs', j)"
    by (cases "moveToFront ?cs k (priority (?cs ! k))") auto
  from assms have "k < length ?cs" by simp
  from moveToFront_moveElem [OF this mv] have j: "j \<le> k" "cs' = moveElem ?cs k j" by auto
  have ix: "take j (indices n) @ take 1 (drop k (indices n)) @ drop j (take k (indices n))
        @ drop (k + 1) (indices n) = moveElem (indices n) k j"
    using assms by (simp add: moveElem_def take1_drop)
  have r: "incrementLiteralPrio n k =
    (if j \<noteq> k then
       (set_indices (take j (indices n) @ take 1 (drop k (indices n)) @ drop j (take k (indices n))
        @ drop (k + 1) (indices n)) (set_literals cs' n), Inr j)
     else (set_literals cs' n, Inr j))"
    using assms mv unfolding incrementLiteralPrio_def Let_def by simp
  show ?thesis
  proof (cases "j = k")
    case True
    with assms j r show ?thesis
      by (intro exI [of _ j]) (simp add: moveElem_same)
  next
    case False
    with j r ix show ?thesis
      by (intro exI [of _ j]) simp
  qed
qed

subsection \<open>insertChild establishes the invariant\<close>

definition wfPre :: "nat \<Rightarrow> 'h node \<Rightarrow> bool" where
  "wfPre d n \<longleftrightarrow> wf d (set_priority (priority n - 1) n)"

definition blank :: "'h node \<Rightarrow> bool" where
  "blank n \<longleftrightarrow> path n = [] \<and> literals n = [] \<and> indices n = [] \<and> wild n = None
     \<and> catchAll n = None \<and> handle n = None \<and> priority n = 1 \<and> (nType n = static \<or> nType n = root)"

lemma findNextWildcard_None: "findNextWildcard p = None \<longleftrightarrow> (\<forall>x \<in> set p. \<not> isWild x)"
  by (induction p) (auto simp: isWild_def)

lemma findNextWildcard_Some:
  "findNextWildcard p = Some (w, i) \<Longrightarrow>
     i < length p \<and> p ! i = w \<and> isWild w \<and> (\<forall>x \<in> set (take i p). \<not> isWild x)"
proof (induction p arbitrary: i)
  case Nil
  then show ?case by simp
next
  case (Cons c cs)
  show ?case
  proof (cases "isWild c")
    case True
    with Cons.prems show ?thesis by (auto simp: isWild_def)
  next
    case False
    with Cons.prems obtain i' where "findNextWildcard cs = Some (w, i')" "i = Suc i'"
      by (auto simp: isWild_def)
    with Cons.IH [of i'] False show ?thesis by auto
  qed
qed

lemma findNextWildcard_hd: "p \<noteq> [] \<Longrightarrow> isWild (hd p) \<Longrightarrow> findNextWildcard p = Some (hd p, 0)"
  by (cases p) (auto simp: isWild_def)

lemma normOK_tl: "normOK (c # cs) \<Longrightarrow> normOK cs"
  by (cases cs) (auto split: if_splits)

lemma normOK_drop: "normOK p \<Longrightarrow> normOK (drop i p)"
proof (induction i arbitrary: p)
  case 0
  then show ?case by simp
next
  case (Suc i)
  then show ?case by (cases p) (auto dest: normOK_tl simp del: normOK.simps)
qed

lemma normOK_star: "normOK p \<Longrightarrow> i < length p \<Longrightarrow> p ! i = CHR ''*'' \<Longrightarrow> i = length p - 1"
proof (induction p arbitrary: i)
  case Nil
  then show ?case by simp
next
  case (Cons c cs)
  show ?case
  proof (cases i)
    case 0
    with Cons.prems show ?thesis by (auto split: if_splits)
  next
    case (Suc j)
    with Cons.prems have "normOK cs" "j < length cs" "cs ! j = CHR ''*''"
      by (auto dest: normOK_tl simp del: normOK.simps)
    from Cons.IH [OF this] \<open>j < length cs\<close> Suc show ?thesis by simp
  qed
qed

lemma nsent_append [simp]: "nsent (a @ b) = nsent a + nsent b"
  by (simp add: nsent_def)

lemma nsent_Cons [simp]: "nsent (c # cs) = (if isWild c then 1 else 0) + nsent cs"
  by (simp add: nsent_def)

lemma nsent_Nil [simp]: "nsent [] = 0"
  by (simp add: nsent_def)

lemma nsent_0: "(\<forall>x \<in> set p. \<not> isWild x) \<Longrightarrow> nsent p = 0"
  by (simp add: nsent_def)

lemma nsent_drop: "(\<forall>x \<in> set (take i p). \<not> isWild x) \<Longrightarrow> nsent (drop i p) = nsent p"
  using nsent_append [of "take i p" "drop i p"] by (simp add: nsent_0 del: nsent_append)

lemma wf_handlers: "wf d n \<Longrightarrow> priority n = of_nat (handlers n)"
  by (cases n) simp

lemma wf_Node [simp]:
  "wf d (Node p pr t ls ix w c h ns) \<longleftrightarrow>
     (t = static \<or> t = root) \<and> p \<noteq> [] \<and> (\<forall>x \<in> set p. \<not> isWild x)
     \<and> ix = map (\<lambda>x. hd (path x)) ls \<and> distinct ix
     \<and> (\<forall>x \<in> set ls. wf d x)
     \<and> (case w of None \<Rightarrow> True | Some x \<Rightarrow> wfParam (Suc d) x)
     \<and> (case c of None \<Rightarrow> True | Some x \<Rightarrow> wfCatch (Suc d) x)
     \<and> (h \<noteq> None \<longrightarrow> length ns = d)
     \<and> pr = of_nat ((if h \<noteq> None then 1 else 0) + sum_list (map handlers ls)
       + (case w of None \<Rightarrow> 0 | Some x \<Rightarrow> handlers x)
       + (case c of None \<Rightarrow> 0 | Some x \<Rightarrow> handlers x))"
  by (simp add: handlers_Node)

declare wf.simps(1) [simp del]

lemma insertChild_blank:
  assumes "blank n" "p \<noteq> []" "\<not> isWild (hd p)" "normOK p" "length names = d + nsent p"
    "hdl \<noteq> None"
  shows "\<exists>n'. insertChild fullpath hdl names n p = (n', None) \<and> wf d n' \<and> handlers n' = 1
     \<and> path n' \<noteq> [] \<and> hd (path n') = hd p \<and> nType n' = nType n \<and> priority n' = 1"
  using assms
proof (induction "length p" arbitrary: p n d rule: less_induct)
  case less
  obtain t ns where n: "n = Node [] 1 t [] [] None None None ns" and t: "t = static \<or> t = root"
    using less.prems(1) by (cases n) (auto simp: blank_def)
  show ?case
  proof (cases "findNextWildcard p")
    case None
    then have nw: "\<forall>x \<in> set p. \<not> isWild x" by (simp add: findNextWildcard_None)
    with less.prems have "length names = d" by (simp add: nsent_0)
    with None nw less.prems t show ?thesis
      unfolding n by (subst insertChild.simps) (auto simp: handlers_Node)
  next
    case (Some a)
    then obtain w i where wi: "findNextWildcard p = Some (w, i)" by (cases a) auto
    from findNextWildcard_Some [OF wi]
    have i: "i < length p" "p ! i = w" "isWild w" "\<forall>x \<in> set (take i p). \<not> isWild x" by auto
    from i less.prems have i0: "0 < i" by (cases i) (auto simp: hd_conv_nth)
    from i0 less.prems have hdp: "hd (take i p) = hd p" "take i p \<noteq> []" by (cases p; cases i; simp)+
    have dr: "drop i p = w # drop (Suc i) p" using i Cons_nth_drop_Suc [of i p] by simp
    have ns: "nsent p = Suc (nsent (drop (Suc i) p))"
      using nsent_drop [OF i(4)] i(3) dr by simp
    have nok: "normOK (w # drop (Suc i) p)" using normOK_drop [OF less.prems(4), of i] dr by simp
    show ?thesis
    proof (cases "w = CHR '':''")
      case True
      show ?thesis
      proof (cases "drop (Suc i) p = []")
        case True2: True
        with True wi i0 dr less.prems ns i t hdp show ?thesis
          unfolding n by (subst insertChild.simps) (auto simp: handlers_Node)
      next
        case False
        let ?rest = "drop (Suc i) p"
        let ?child = "Node [] 1 static [] [] None None None [] :: 'a node"
        from nok True False have hr: "hd ?rest = CHR ''/''" by (cases ?rest) auto
        have "\<exists>n'. insertChild fullpath hdl names ?child ?rest = (n', None) \<and> wf (Suc d) n' \<and> handlers n' = 1
          \<and> path n' \<noteq> [] \<and> hd (path n') = hd ?rest \<and> nType n' = nType ?child \<and> priority n' = 1"
        proof (rule less.hyps)
          show "length ?rest < length p" using i by simp
          show "blank ?child" by (simp add: blank_def)
          show "?rest \<noteq> []" by (rule False)
          show "\<not> isWild (hd ?rest)" using hr by (simp add: isWild_def)
          show "normOK ?rest" using nok by (rule normOK_tl)
          show "length names = Suc d + nsent ?rest" using less.prems ns by simp
          show "hdl \<noteq> None" by (rule less.prems)
        qed
        then obtain c' where c': "insertChild fullpath hdl names ?child ?rest = (c', None)"
          "wf (Suc d) c'" "handlers c' = 1" "path c' \<noteq> []" "hd (path c') = CHR ''/''"
          using hr by auto
        from True wi i0 dr False c' t hdp i show ?thesis
          unfolding n by (subst insertChild.simps) (auto simp: handlers_Node)
      qed
    next
      case False
      with i have w: "w = CHR ''*''" by (simp add: isWild_def)
      with normOK_star [OF less.prems(4) i(1)] i have last: "i = length p - 1" by simp
      then have "drop (Suc i) p = []" using i by simp
      with w wi i0 last less.prems ns i t hdp show ?thesis
        unfolding n by (subst insertChild.simps) (auto simp: handlers_Node)
    qed
  qed
qed


lemma wfPre_Node:
  "wfPre d (Node p pr t ls ix w c h ns) \<longleftrightarrow>
     (t = static \<or> t = root) \<and> p \<noteq> [] \<and> (\<forall>x \<in> set p. \<not> isWild x)
     \<and> ix = map (\<lambda>x. hd (path x)) ls \<and> distinct ix
     \<and> (\<forall>x \<in> set ls. wf d x)
     \<and> (case w of None \<Rightarrow> True | Some x \<Rightarrow> wfParam (Suc d) x)
     \<and> (case c of None \<Rightarrow> True | Some x \<Rightarrow> wfCatch (Suc d) x)
     \<and> (h \<noteq> None \<longrightarrow> length ns = d)
     \<and> pr = of_nat ((if h \<noteq> None then 1 else 0) + sum_list (map handlers ls)
       + (case w of None \<Rightarrow> 0 | Some x \<Rightarrow> handlers x)
       + (case c of None \<Rightarrow> 0 | Some x \<Rightarrow> handlers x)) + 1"
  by (simp add: wfPre_def diff_eq_eq)

lemma insertChild_wild:
  assumes "wfPre d n" "p \<noteq> []" "isWild (hd p)" "normOK p" "length names = d + nsent p"
    "hdl \<noteq> None" "insertChild fullpath hdl names n p = (n', None)"
  shows "wf d n' \<and> handlers n' = handlers n + 1 \<and> path n' = path n \<and> nType n' = nType n"
proof -
  obtain q pr t ls ix w c h ns where n: "n = Node q pr t ls ix w c h ns" by (cases n)
  obtain c0 rest where p: "p = c0 # rest" using assms(2) by (cases p) auto
  from assms p have c0: "isWild c0" by simp
  have fw: "findNextWildcard (c0 # rest) = Some (c0, 0)" using c0 by (auto simp: isWild_def)
  have ns: "length names = Suc d + nsent rest" using assms(5) p c0 by simp
  have ic: "insertChild fullpath hdl names (Node q pr t ls ix w c h ns) (c0 # rest) = (n', None)"
    using assms(7) n p by simp
  show ?thesis
  proof (cases "c0 = CHR '':''")
    case True
    with ic fw have w: "w = None"
      by (subst (asm) insertChild.simps) (auto split: if_splits)
    show ?thesis
    proof (cases "rest = []")
      case True2: True
      with ic fw True w have "n' = Node q pr t ls ix (Some (Node '':'' 1 param [] [] None None hdl names)) c h ns"
        by (subst (asm) insertChild.simps) (auto split: if_splits)
      with assms(1,6) ns True2 w show ?thesis
        unfolding n by (auto simp: wfPre_Node handlers_Node)
    next
      case False
      let ?child = "Node [] 1 static [] [] None None None [] :: 'a node"
      from assms(4) p True False have hr: "hd rest = CHR ''/''"
        by (cases rest) auto
      have "\<exists>c'. insertChild fullpath hdl names ?child rest = (c', None) \<and> wf (Suc d) c' \<and> handlers c' = 1
          \<and> path c' \<noteq> [] \<and> hd (path c') = hd rest \<and> nType c' = nType ?child \<and> priority c' = 1"
      proof (rule insertChild_blank)
        show "blank ?child" by (simp add: blank_def)
        show "rest \<noteq> []" by (rule False)
        show "\<not> isWild (hd rest)" using hr by (simp add: isWild_def)
        show "normOK rest" using assms(4) p normOK_tl by blast
        show "length names = Suc d + nsent rest" by (rule ns)
        show "hdl \<noteq> None" by (rule assms)
      qed
      then obtain c' where c': "insertChild fullpath hdl names ?child rest = (c', None)"
          "wf (Suc d) c'" "handlers c' = 1" "path c' \<noteq> []" "hd (path c') = CHR ''/''"
        using hr by auto
      from ic fw True w c' False have "n' = Node q pr t ls ix (Some (Node '':'' 1 param [c'] [] None None None [])) c h ns"
        by (subst (asm) insertChild.simps) (auto split: if_splits)
      with assms(1) c' w show ?thesis
        unfolding n by (auto simp: wfPre_Node handlers_Node)
    qed
  next
    case False
    with c0 have star: "c0 = CHR ''*''" by (simp add: isWild_def)
    with assms(4) p have rest: "rest = []" by simp
    from assms(1) have q: "q \<noteq> []" unfolding n by (simp add: wfPre_Node)
    from ic fw star rest q have c: "c = None"
      by (subst (asm) insertChild.simps) (auto split: if_splits)
    from ic fw star rest q c have n': "n' = Node q pr t ls ix w (Some (Node ''*'' 1 catchAllT [] [] None None hdl names)) h ns"
      by (subst (asm) insertChild.simps) (auto split: if_splits)
    with assms(1,6) ns rest c show ?thesis
      unfolding n by (auto simp: wfPre_Node handlers_Node)
  qed
qed

subsection \<open>Splitting, updating and appending children\<close>

lemma lcp_take: "take (longestCommonPrefix a b) b = take (longestCommonPrefix a b) a"
  by (induction a b rule: longestCommonPrefix.induct) auto

lemma lcp_pos: "a \<noteq> [] \<Longrightarrow> b \<noteq> [] \<Longrightarrow> hd a = hd b \<Longrightarrow> 0 < longestCommonPrefix a b"
  by (cases a; cases b) auto

lemma lcp_full: "longestCommonPrefix a b = length a \<Longrightarrow> b = a @ drop (length a) b"
  using lcp_take [of a b] by (metis append_take_drop_id take_all order_refl)

lemma findIndex_Some: "findIndex c ix = Some k \<Longrightarrow> k < length ix \<and> ix ! k = c"
  by (induction ix arbitrary: k) (auto split: if_splits)

lemma findIndex_None: "findIndex c ix = None \<Longrightarrow> c \<notin> set ix"
  by (induction ix) (auto split: if_splits)

lemma handlers_set [simp]:
  "handlers (set_priority v n) = handlers n"
  "handlers (set_path v1 n) = handlers n"
  "handlers (set_indices v2 n) = handlers n"
  "handlers (set_nType v3 n) = handlers n"
  "handlers (set_wildcardNames v4 n) = handlers n"
  by (cases n; simp add: handlers_Node)+

lemma wfPre_bump: "wf d x \<Longrightarrow> wfPre d (set_priority (priority x + 1) x)"
  by (cases x) (simp add: wfPre_def)

lemma sum_list_update:
  "k < length xs \<Longrightarrow> sum_list (map g (xs[k := y])) + g (xs ! k) = sum_list (map g xs) + (g y :: nat)"
proof (induction xs arbitrary: k)
  case Nil
  then show ?case by simp
next
  case (Cons x xs)
  then show ?case by (cases k) (auto simp: add.assoc)
qed

lemma wf_moveElem:
  assumes "wf d (Node q pr t ls ix w c h ns)" "j \<le> k" "k < length ls"
  shows "wf d (Node q pr t (moveElem ls k j) (moveElem ix k j) w c h ns)"
    and "handlers (Node q pr t (moveElem ls k j) (moveElem ix k j) w c h ns)
         = handlers (Node q pr t ls ix w c h ns)"
proof -
  from assms have ix: "ix = map (\<lambda>x. hd (path x)) ls" and len: "k < length ix" by auto
  have m: "mset (moveElem ls k j) = mset ls" using assms by (simp add: moveElem_mset)
  then have s: "set (moveElem ls k j) = set ls" by (metis set_mset_mset)
  have "mset (map handlers (moveElem ls k j)) = mset (map handlers ls)"
    using m by (metis mset_map)
  then have sum: "sum_list (map handlers (moveElem ls k j)) = sum_list (map handlers ls)"
    by (metis sum_mset_sum_list)
  then show h: "handlers (Node q pr t (moveElem ls k j) (moveElem ix k j) w c h ns)
         = handlers (Node q pr t ls ix w c h ns)"
    by (simp add: handlers_Node)
  have a: "moveElem ix k j = map (\<lambda>x. hd (path x)) (moveElem ls k j)"
    using assms(3) unfolding ix by (simp add: moveElem_map)
  have "mset (moveElem ix k j) = mset ix" using assms(2) len by (simp add: moveElem_mset)
  then have di: "distinct (moveElem ix k j) = distinct ix" by (rule mset_eq_imp_distinct_iff)
  from assms(1) a di s sum show "wf d (Node q pr t (moveElem ls k j) (moveElem ix k j) w c h ns)"
    by auto
qed

lemma wf_update:
  assumes "wfPre d (Node q pr t ls ix w c h ns)" "k < length ls" "wf d c'"
    "hd (path c') = hd (path (ls ! k))" "handlers c' = handlers (ls ! k) + 1"
  shows "wf d (Node q pr t (ls[k := c']) ix w c h ns)"
    and "handlers (Node q pr t (ls[k := c']) ix w c h ns) = handlers (Node q pr t ls ix w c h ns) + 1"
proof -
  from sum_list_update [OF assms(2), of handlers c'] assms(5)
  have sum: "sum_list (map handlers (ls[k := c'])) = sum_list (map handlers ls) + 1" by simp
  then show h: "handlers (Node q pr t (ls[k := c']) ix w c h ns) = handlers (Node q pr t ls ix w c h ns) + 1"
    by (simp add: handlers_Node)
  from assms have ix: "ix = map (\<lambda>x. hd (path x)) ls" by (simp add: wfPre_Node)
  have "(map (\<lambda>x. hd (path x)) ls)[k := hd (path (ls ! k))] = map (\<lambda>x. hd (path x)) ls"
    by (metis list_update_id map_update)
  then have a: "ix = map (\<lambda>x. hd (path x)) (ls[k := c'])"
    unfolding ix using assms(4) by (simp add: map_update)
  have "\<forall>x \<in> set (ls[k := c']). wf d x"
    using assms(1,3) set_update_subset_insert [of ls k c'] by (auto simp: wfPre_Node)
  with assms(1) a sum show "wf d (Node q pr t (ls[k := c']) ix w c h ns)"
    by (auto simp: wfPre_Node)
qed

lemma wf_append:
  assumes "wfPre d (Node q pr t ls ix w c h ns)" "wf d c'" "hd (path c') = b" "b \<notin> set ix"
    "handlers c' = 1"
  shows "wf d (Node q pr t (ls @ [c']) (ix @ [b]) w c h ns)"
    and "handlers (Node q pr t (ls @ [c']) (ix @ [b]) w c h ns) = handlers (Node q pr t ls ix w c h ns) + 1"
  using assms by (auto simp: wfPre_Node handlers_Node)

lemma splitNode_wfPre:
  assumes "wfPre d n" "i = longestCommonPrefix (path n) p" "0 < i" "i < length (path n)"
  shows "wfPre d (splitNode n i p)" and "handlers (splitNode n i p) = handlers n"
proof -
  obtain q pr t ls ix w c h ns where n: "n = Node q pr t ls ix w c h ns" by (cases n)
  from assms have tk: "take i p = take i q" using lcp_take [of q p] by (simp add: n)
  from assms(3,4) have ne: "take i q \<noteq> []" unfolding n by auto
  have sub: "set (take i q) \<subseteq> set q" by (rule set_take_subset)
  have sub2: "set (drop i q) \<subseteq> set q" by (rule set_drop_subset)
  from assms(4) have dne: "drop i q \<noteq> []" "hd (drop i q) = q ! i" unfolding n by (auto simp: hd_drop_conv_nth)
  show "handlers (splitNode n i p) = handlers n"
    unfolding n splitNode_def by (simp add: handlers_Node)
  from assms(1) tk ne sub sub2 dne show "wfPre d (splitNode n i p)"
    unfolding n splitNode_def Let_def
    by (auto simp: wfPre_Node handlers_Node)
qed

subsection \<open>The loop of addRoute keeps the invariant\<close>

definition walkRest ::
  "string \<Rightarrow> 'h option \<Rightarrow> string list \<Rightarrow> 'h node \<Rightarrow> string \<Rightarrow> 'h node \<times> error option"
where
  "walkRest fullpath hdl names n1 p1 =
     (if p1 \<noteq> [] then
           (let nextChar = hd p1 in
            if nextChar = CHR '':'' \<and> wild n1 \<noteq> None \<and> 1 < length p1 then
              (case walk fullpath hdl names (the (wild n1)) p1 of
                 (w, e) \<Rightarrow> (set_wild (Some w) n1, e))
            else if nType n1 = param \<and> literals n1 \<noteq> [] then
              (case walk fullpath hdl names
                      (set_priority (priority (hd (literals n1)) + 1) (hd (literals n1))) p1 of
                 (c, e) \<Rightarrow> (set_literals (c # tl (literals n1)) n1, e))
            else
              (case findIndex nextChar (indices n1) of
                 Some k \<Rightarrow>
                   (case incrementLiteralPrio n1 k of
                      (n2, Inl e) \<Rightarrow> (n2, Some e)
                    | (n2, Inr newPos) \<Rightarrow>
                        (case walk fullpath hdl names (literals n2 ! newPos) p1 of
                           (c, e) \<Rightarrow> (set_literals ((literals n2)[newPos := c]) n2, e)))
               | None \<Rightarrow>
                   if nextChar \<noteq> CHR '':'' \<and> nextChar \<noteq> CHR ''*'' then
                     (case incrementLiteralPrio
                             (set_literals (literals n1 @ [emptyNode])
                                (set_indices (indices n1 @ [nextChar]) n1))
                             (length (indices n1 @ [nextChar]) - 1) of
                        (n2, Inl e) \<Rightarrow> (n2, Some e)
                      | (n2, Inr newPos) \<Rightarrow>
                          (case insertChild fullpath hdl names (literals n2 ! newPos) p1 of
                             (c, e) \<Rightarrow> (set_literals ((literals n2)[newPos := c]) n2, e)))
                   else insertChild fullpath hdl names n1 p1))
         else if handle n1 \<noteq> None then (n1, Some HandleAlreadyRegistered)
         else (set_wildcardNames names (set_handle hdl n1), None))"

lemma walk_eq:
  "walk fullpath hdl names n p =
     walkRest fullpath hdl names
       (if longestCommonPrefix (path n) p < length (path n)
        then splitNode n (longestCommonPrefix (path n) p) p else n)
       (drop (longestCommonPrefix (path n) p) p)"
  by (subst walk.simps) (simp add: walkRest_def Let_def)

definition walkOK :: "string \<Rightarrow> 'h option \<Rightarrow> string list \<Rightarrow> 'h node \<Rightarrow> string \<Rightarrow> bool" where
  "walkOK fullpath hdl names n p \<longleftrightarrow>
     (\<forall>n' d. hdl \<noteq> None \<longrightarrow> normOK p \<longrightarrow> p \<noteq> [] \<longrightarrow> walk fullpath hdl names n p = (n', None) \<longrightarrow>
        (wfPre d n \<and> hd p = hd (path n) \<and> length names = d + nsent p \<longrightarrow>
           wf d n' \<and> handlers n' = handlers n + 1 \<and> path n' \<noteq> [] \<and> hd (path n') = hd (path n))
      \<and> (wfParam d n \<and> hd p = CHR '':'' \<and> length names = d + nsent (tl p) \<longrightarrow>
           wfParam d n' \<and> handlers n' = handlers n + 1))"

lemma set_literals_Node: "set_literals v (set_indices u (Node q pr t ls ix w c h ns)) = Node q pr t v u w c h ns"
  by simp

lemma walkRest_lit:
  assumes pre: "wfPre d n1" and nok: "normOK p1" and len: "length names = d + nsent p1"
    and hdl: "hdl \<noteq> None" and res: "walkRest fullpath hdl names n1 p1 = (n', None)"
    and IH1: "\<And>w. p1 \<noteq> [] \<Longrightarrow> hd p1 = CHR '':'' \<Longrightarrow> wild n1 = Some w \<Longrightarrow> 1 < length p1
                \<Longrightarrow> walkOK fullpath hdl names w p1"
    and IH3: "\<And>k n2 b. p1 \<noteq> [] \<Longrightarrow> \<not> (hd p1 = CHR '':'' \<and> wild n1 \<noteq> None \<and> 1 < length p1)
                \<Longrightarrow> findIndex (hd p1) (indices n1) = Some k
                \<Longrightarrow> incrementLiteralPrio n1 k = (n2, Inr b)
                \<Longrightarrow> walkOK fullpath hdl names (literals n2 ! b) p1"
  shows "wf d n' \<and> handlers n' = handlers n1 + 1 \<and> path n' = path n1"
proof -
  obtain q pr t ls ix w c h ns where n1: "n1 = Node q pr t ls ix w c h ns" by (cases n1)
  note P = pre [unfolded n1 wfPre_Node]
  from P have t: "t \<noteq> param" by auto
  from P have ix: "ix = map (\<lambda>x. hd (path x)) ls" by simp
  show ?thesis
  proof (cases "p1 = []")
    case True
    with res have "h = None" and "n' = Node q pr t ls ix w c hdl names"
      by (auto simp: walkRest_def n1 split: if_splits)
    with P hdl len True show ?thesis
      by (auto simp: n1 handlers_Node)
  next
    case ne: False
    let ?c = "hd p1"
    show ?thesis
    proof (cases "?c = CHR '':'' \<and> w \<noteq> None \<and> 1 < length p1")
      case True
      then obtain wn where w: "w = Some wn" by auto
      obtain w' e where ww: "walk fullpath hdl names wn p1 = (w', e)" by (cases "walk fullpath hdl names wn p1")
      with res ne True w have e: "e = None" and n': "n' = Node q pr t ls ix (Some w') c h ns"
        by (auto simp: walkRest_def n1)
      have "walkOK fullpath hdl names wn p1" using IH1 [of wn] ne True w by (simp add: n1)
      moreover have "wfParam (Suc d) wn" using P w by simp
      moreover have "length names = Suc d + nsent (tl p1)"
        using len ne True by (cases p1) (auto simp: isWild_def)
      ultimately have "wfParam (Suc d) w'" "handlers w' = handlers wn + 1"
        using ww e hdl nok ne True unfolding walkOK_def by blast+
      with P w n' show ?thesis by (auto simp: n1 handlers_Node)
    next
      case nw: False
      show ?thesis
      proof (cases "findIndex ?c ix")
        case (Some k)
        from findIndex_Some [OF Some] ix have k: "k < length ls" "ix ! k = ?c" by auto
        from incrementLiteralPrio_aligned [of k n1] k ix
        obtain j where j: "j \<le> k" and inc: "incrementLiteralPrio n1 k =
          (Node q pr t (moveElem (ls[k := set_priority (priority (ls ! k) + 1) (ls ! k)]) k j) (moveElem ix k j) w c h ns, Inr j)"
          by (auto simp: n1)
        let ?n2 = "Node q pr t (moveElem (ls[k := set_priority (priority (ls ! k) + 1) (ls ! k)]) k j) (moveElem ix k j) w c h ns"
        let ?b = "set_priority (priority (ls ! k) + 1) (ls ! k)"
        have lb: "literals ?n2 ! j = ?b" using j k by simp
        obtain c' e where ww: "walk fullpath hdl names ?b p1 = (c', e)" by (cases "walk fullpath hdl names ?b p1")
        with res ne nw Some inc lb t have e: "e = None"
          and n': "n' = Node q pr t ((moveElem (ls[k := ?b]) k j)[j := c']) (moveElem ix k j) w c h ns"
          by (auto simp: walkRest_def n1)
        have "walkOK fullpath hdl names (literals ?n2 ! j) p1"
          using IH3 [of k ?n2 j] ne nw Some inc by (simp add: n1)
        then have ok: "walkOK fullpath hdl names ?b p1" using lb by simp
        have wfk: "wf d (ls ! k)" using P k by simp
        have "wfPre d ?b" using wfk by (rule wfPre_bump)
        moreover have "hd p1 = hd (path ?b)" using k ix by simp
        ultimately have c': "wf d c'" "handlers c' = handlers (ls ! k) + 1" "hd (path c') = hd (path (ls ! k))"
          using ok ww e hdl nok ne len unfolding walkOK_def by (metis handlers_set(1) sel_set(10))+
        note u = wf_update [OF pre [unfolded n1] k(1) c'(1) c'(3) c'(2)]
        have lk: "k < length (ls[k := c'])" using k by simp
        note v = wf_moveElem [OF u(1) j lk]
        have "(moveElem (ls[k := ?b]) k j)[j := c'] = moveElem (ls[k := c']) k j"
          using j k by (simp add: moveElem_update)
        with n' have n'': "n' = Node q pr t (moveElem (ls[k := c']) k j) (moveElem ix k j) w c h ns"
          by simp
        show ?thesis unfolding n'' n1 using v u(2) by (simp del: wf_Node)
      next
        case None
        from findIndex_None [OF None] have notin: "?c \<notin> set ix" .
        show ?thesis
        proof (cases "isWild ?c")
          case True
          with res ne nw None t have "insertChild fullpath hdl names n1 p1 = (n', None)"
            by (auto simp: walkRest_def n1 isWild_def)
          from insertChild_wild [OF pre ne True nok len hdl this] show ?thesis by simp
        next
          case False
          let ?k = "length ls"
          let ?m = "Node q pr t (ls @ [emptyNode]) (ix @ [?c]) w c h ns"
          let ?b = "Node [] 1 static [] [] None None None [] :: 'a node"
          from incrementLiteralPrio_aligned [of ?k ?m] ix
          obtain j where j: "j \<le> ?k" and inc': "incrementLiteralPrio ?m ?k =
            (Node q pr t (moveElem (ls @ [?b]) ?k j) (moveElem (ix @ [?c]) ?k j) w c h ns, Inr j)"
            by (auto simp: emptyNode_def)
          let ?n2 = "Node q pr t (moveElem (ls @ [?b]) ?k j) (moveElem (ix @ [?c]) ?k j) w c h ns"
          have lb: "literals ?n2 ! j = ?b" using j by simp
          have "\<exists>c'. insertChild fullpath hdl names ?b p1 = (c', None) \<and> wf d c' \<and> handlers c' = 1
              \<and> path c' \<noteq> [] \<and> hd (path c') = hd p1 \<and> nType c' = nType ?b \<and> priority c' = 1"
            by (rule insertChild_blank) (use ne False nok len hdl in \<open>simp_all add: blank_def\<close>)
          then obtain c' where c': "insertChild fullpath hdl names ?b p1 = (c', None)" "wf d c'"
            "handlers c' = 1" "hd (path c') = ?c" by auto
          from ix have lix: "length ix = length ls" by simp
          from res ne nw None False t inc' lb c'(1) lix
          have n': "n' = Node q pr t ((moveElem (ls @ [?b]) ?k j)[j := c']) (moveElem (ix @ [?c]) ?k j) w c h ns"
            by (auto simp: walkRest_def n1 isWild_def)
          note u = wf_append [OF pre [unfolded n1] c'(2) c'(4) notin c'(3)]
          have lk: "?k < length (ls @ [c'])" by simp
          note v = wf_moveElem [OF u(1) j lk]
          have "(moveElem (ls @ [?b]) ?k j)[j := c'] = moveElem (ls @ [c']) ?k j"
            using moveElem_update [of j ?k "ls @ [?b]" ?b c'] j by simp
          with n' have n'': "n' = Node q pr t (moveElem (ls @ [c']) ?k j) (moveElem (ix @ [?c]) ?k j) w c h ns"
            by simp
          show ?thesis unfolding n'' n1 using v u(2) by (simp del: wf_Node)
        qed
      qed
    qed
  qed
qed

lemma wfParam_Node:
  "wfParam d n \<Longrightarrow> \<exists>pr ls ix h ns. n = Node '':'' pr param ls ix None None h ns"
  by (cases n) auto

lemma walkRest_param:
  assumes pre: "wfParam d n1" and nok: "normOK p1" and sl: "p1 = [] \<or> hd p1 = CHR ''/''"
    and len: "length names = d + nsent p1"
    and hdl: "hdl \<noteq> None" and res: "walkRest fullpath hdl names n1 p1 = (n', None)"
    and IH2: "p1 \<noteq> [] \<Longrightarrow> literals n1 \<noteq> [] \<Longrightarrow>
         walkOK fullpath hdl names (set_priority (priority (hd (literals n1)) + 1) (hd (literals n1))) p1"
  shows "wfParam d n' \<and> handlers n' = handlers n1 + 1"
proof -
  from wfParam_Node [OF pre] obtain pr ls ix h ns where n1: "n1 = Node '':'' pr param ls ix None None h ns"
    by auto
  note P = pre [unfolded n1, simplified]
  show ?thesis
  proof (cases "p1 = []")
    case True
    with res have "h = None" and "n' = Node '':'' pr param ls ix None None hdl names"
      by (auto simp: walkRest_def n1 split: if_splits)
    with P hdl len True show ?thesis
      by (auto simp: n1 handlers_Node)
  next
    case ne: False
    with sl have c: "hd p1 = CHR ''/''" by simp
    show ?thesis
    proof (cases "ls = []")
      case False
      then obtain x where ls: "ls = [x]" using P by (cases ls) auto
      let ?b = "set_priority (priority x + 1) x"
      obtain c' e where ww: "walk fullpath hdl names ?b p1 = (c', e)" by (cases "walk fullpath hdl names ?b p1")
      with res ne c ls have e: "e = None" and n': "n' = Node '':'' pr param [c'] ix None None h ns"
        by (auto simp: walkRest_def n1)
      have ok: "walkOK fullpath hdl names ?b p1" using IH2 ne ls by (simp add: n1)
      have wfx: "wf d x" "hd (path x) = CHR ''/''" using P ls by auto
      have "wfPre d ?b" using wfx(1) by (rule wfPre_bump)
      moreover have "hd p1 = hd (path ?b)" using c wfx by simp
      ultimately have c': "wf d c'" "handlers c' = handlers x + 1" "hd (path c') = hd (path x)"
        using ok ww e hdl nok ne len unfolding walkOK_def by (metis handlers_set(1) sel_set(10))+
      with P ls n' wfx show ?thesis by (auto simp: n1 handlers_Node simp del: wf_Node)
    next
      case True
      with P have ix: "ix = []" by auto
      let ?b = "Node [] 1 static [] [] None None None [] :: 'a node"
      let ?m = "Node '':'' pr param [emptyNode] [CHR ''/''] None None h ns :: 'a node"
      from incrementLiteralPrio_aligned [of 0 ?m]
      have inc: "incrementLiteralPrio ?m 0 = (Node '':'' pr param [?b] [CHR ''/''] None None h ns, Inr 0)"
        by (auto simp: emptyNode_def moveElem_def)
      have "\<exists>c'. insertChild fullpath hdl names ?b p1 = (c', None) \<and> wf d c' \<and> handlers c' = 1
              \<and> path c' \<noteq> [] \<and> hd (path c') = hd p1 \<and> nType c' = nType ?b \<and> priority c' = 1"
        by (rule insertChild_blank) (use ne c nok len hdl in \<open>simp_all add: blank_def isWild_def\<close>)
      then obtain c' where c': "insertChild fullpath hdl names ?b p1 = (c', None)" "wf d c'"
            "handlers c' = 1" "hd (path c') = CHR ''/''" using c by auto
      from res ne c True ix inc c'(1)
      have n': "n' = Node '':'' pr param [c'] [CHR ''/''] None None h ns"
        by (auto simp: walkRest_def n1)
      with P True c' show ?thesis by (auto simp: n1 handlers_Node simp del: wf_Node)
    qed
  qed
qed

lemma walk_walkOK: "walkOK fullpath hdl names n p"
proof (induction fullpath hdl names n p rule: walk.induct)
  case (1 fullpath hdl names n p)
  let ?i = "longestCommonPrefix (path n) p"
  let ?n1 = "if ?i < length (path n) then splitNode n ?i p else n"
  let ?p1 = "drop ?i p"
  note IH1 = "1.IH"(1) [OF refl refl refl _ refl]
  note IH2 = "1.IH"(2) [OF refl refl refl _ refl]
  note IH3 = "1.IH"(3) [OF refl refl refl _ refl]
  show ?case unfolding walkOK_def
  proof (intro allI impI conjI; (elim conjE)?)
    fix n' d
    assume hdl: "hdl \<noteq> None" and nok: "normOK p" and ne: "p \<noteq> []"
      and res: "walk fullpath hdl names n p = (n', None)"
      and pre: "wfPre d n" and hd: "hd p = hd (path n)" and len: "length names = d + nsent p"
    from pre have qne: "path n \<noteq> []" and nw: "\<forall>x \<in> set (path n). \<not> isWild x"
      by (cases n; simp add: wfPre_Node)+
    from lcp_pos [OF qne ne] hd have i0: "0 < ?i" by simp
    have tk: "take ?i p = take ?i (path n)" by (rule lcp_take)
    have pre1: "wfPre d ?n1" and h1: "handlers ?n1 = handlers n"
      using splitNode_wfPre [OF pre refl i0] pre by auto
    have p1: "path ?n1 = take ?i p"
      using tk lcp_le(1) [of "path n" p] by (auto simp: le_less)
    have "set (take ?i p) \<subseteq> set (path n)" unfolding tk by (rule set_take_subset)
    with nw have "\<forall>x \<in> set (take ?i p). \<not> isWild x" by blast
    then have ns: "nsent ?p1 = nsent p" by (rule nsent_drop)
    have res1: "walkRest fullpath hdl names ?n1 ?p1 = (n', None)"
      using res by (simp only: walk_eq)
    have "wf d n' \<and> handlers n' = handlers ?n1 + 1 \<and> path n' = path ?n1"
    proof (rule walkRest_lit [OF pre1 normOK_drop [OF nok] _ hdl res1])
      show "length names = d + nsent ?p1" using len ns by simp
    next
      fix w assume "?p1 \<noteq> []" "hd ?p1 = CHR '':''" "wild ?n1 = Some w" "1 < length ?p1"
      then show "walkOK fullpath hdl names w ?p1" using IH1 by (metis option.sel option.distinct(1))
    next
      fix k n2 b
      assume "?p1 \<noteq> []" "\<not> (hd ?p1 = CHR '':'' \<and> wild ?n1 \<noteq> None \<and> 1 < length ?p1)"
        "findIndex (hd ?p1) (indices ?n1) = Some k" "incrementLiteralPrio ?n1 k = (n2, Inr b)"
      moreover have "nType ?n1 \<noteq> param" using pre1 by (cases ?n1) (auto simp: wfPre_Node)
      ultimately show "walkOK fullpath hdl names (literals n2 ! b) ?p1"
        using IH3 [of k n2 "Inr b" b] by simp
    qed
    moreover have "take ?i p \<noteq> []" using i0 ne by (cases p) auto
    moreover have "hd (take ?i p) = hd p" using i0 ne by (cases p; cases ?i) auto
    ultimately show "wf d n'" "handlers n' = handlers n + 1" "path n' \<noteq> []" "hd (path n') = hd (path n)"
      using h1 p1 hd by (simp_all del: wf_Node)
  next
    fix n' d
    assume hdl: "hdl \<noteq> None" and nok: "normOK p" and ne: "p \<noteq> []"
      and res: "walk fullpath hdl names n p = (n', None)"
      and pre: "wfParam d n" and hd: "hd p = CHR '':''" and len: "length names = d + nsent (tl p)"
    from wfParam_Node [OF pre] have q: "path n = '':''" by auto
    from ne hd obtain rest where p: "p = CHR '':'' # rest" by (cases p) auto
    have i: "?i = 1" unfolding q p by simp
    have n1: "?n1 = n" using i q by simp
    have p1: "?p1 = rest" using i p by simp
    have res1: "walkRest fullpath hdl names n rest = (n', None)"
      using res n1 p1 by (simp only: walk_eq)
    have nt: "nType n = param" using wfParam_Node [OF pre] by auto
    show "wfParam d n'" "handlers n' = handlers n + 1"
    proof -
      have "wfParam d n' \<and> handlers n' = handlers n + 1"
      proof (rule walkRest_param [OF pre _ _ _ hdl res1])
        show "normOK rest" using nok p normOK_tl by blast
        show "rest = [] \<or> hd rest = CHR ''/''" using nok p by auto
        show "length names = d + nsent rest" using len p by simp
      next
        assume a: "rest \<noteq> []" "literals n \<noteq> []"
        have "hd rest = CHR ''/''" using nok p a by auto
        with a nt show "walkOK fullpath hdl names (set_priority (priority (hd (literals n)) + 1) (hd (literals n))) rest"
          using IH2 unfolding n1 p1 by simp
      qed
      then show "wfParam d n'" "handlers n' = handlers n + 1" by auto
    qed
  qed
qed

subsection \<open>normalizePath, addRoute and Handler keep the invariant\<close>

lemma scanName_props:
  "scanName cs = Inr k \<Longrightarrow> k \<le> length cs \<and> (k < length cs \<longrightarrow> cs ! k = CHR ''/'')
     \<and> (\<forall>x \<in> set (take k cs). \<not> isWild x \<and> x \<noteq> CHR ''/'')"
proof (induction cs arbitrary: k)
  case Nil
  then show ?case by simp
next
  case (Cons c cs)
  show ?case
  proof (cases "c = CHR ''/''")
    case True
    with Cons.prems show ?thesis by simp
  next
    case False
    with Cons.prems obtain k' where k': "scanName cs = Inr k'" "k = Suc k'" "\<not> isWild c"
      by (auto simp: isWild_def split: if_splits sum.splits)
    from Cons.IH [OF k'(1)] k' False show ?thesis by auto
  qed
qed

lemma normalizeLoop_props:
  "normalizeLoop chars start acc names = Inr (np, ns) \<Longrightarrow>
   \<exists>np' ns'. np = acc @ np' \<and> ns = names @ ns' \<and> normOK np' \<and> length ns' = nsent np'
     \<and> (start < length chars \<longrightarrow> np' \<noteq> [] \<and> hd np' = chars ! start)
     \<and> (length chars \<le> start \<longrightarrow> np' = [])"
proof (induction chars start acc names rule: normalizeLoop.induct)
  case (1 chars start acc names)
  show ?case
  proof (cases "start < length chars")
    case False
    with "1.prems" show ?thesis by (subst (asm) normalizeLoop.simps) simp
  next
    case lt: True
    let ?c = "chars ! start"
    show ?thesis
    proof (cases "?c \<noteq> CHR '':'' \<and> ?c \<noteq> CHR ''*''")
      case True
      with lt "1.prems" have r: "normalizeLoop chars (start + 1) (acc @ [?c]) names = Inr (np, ns)"
        by (subst (asm) normalizeLoop.simps) (simp add: Let_def)
      from "1.IH"(1) [OF lt refl refl True r]
      obtain np' ns' where IH: "np = (acc @ [?c]) @ np'" "ns = names @ ns'" "normOK np'"
        "length ns' = nsent np'" by blast
      with True lt show ?thesis
        by (intro exI [of _ "?c # np'"] exI [of _ ns']) (auto simp: isWild_def)
    next
      case False
      then have w: "isWild ?c" by (auto simp: isWild_def)
      from lt False "1.prems" obtain k where k: "scanName (drop (start + 1) chars) = Inr k"
        by (subst (asm) normalizeLoop.simps) (auto simp: Let_def split: sum.splits)
      let ?te = "start + 1 + k"
      let ?nm = "take (?te - (start + 1)) (drop (start + 1) chars)"
      from lt False "1.prems" k
      have c1: "?te \<noteq> start + 1"
        and c2: "\<not> (?c = CHR ''*'' \<and> 1 < start \<and> chars ! (start - 1) \<noteq> CHR ''/'')"
        and c3: "\<not> (?c = CHR ''*'' \<and> ?te \<noteq> length chars)"
        and r: "normalizeLoop chars ?te (acc @ [?c]) (names @ [?nm]) = Inr (np, ns)"
        by (subst (asm) normalizeLoop.simps, simp add: Let_def split: if_splits)+
      from "1.IH"(2) [OF lt refl refl False k refl c1 c2 c3 r]
      obtain np' ns' where IH: "np = (acc @ [?c]) @ np'" "ns = (names @ [?nm]) @ ns'" "normOK np'"
        "length ns' = nsent np'" "?te < length chars \<longrightarrow> np' \<noteq> [] \<and> hd np' = chars ! ?te"
        "length chars \<le> ?te \<longrightarrow> np' = []" by blast
      from scanName_props [OF k] have sl: "?te < length chars \<longrightarrow> chars ! ?te = CHR ''/''"
        by (auto simp: add.commute add.left_commute)
      have "normOK (?c # np')"
      proof (cases "?c = CHR '':''")
        case True
        with IH sl show ?thesis by (cases "?te < length chars") auto
      next
        case False
        with w have "?c = CHR ''*''" by (simp add: isWild_def)
        with c3 IH show ?thesis by auto
      qed
      with IH w lt show ?thesis
        by (intro exI [of _ "?c # np'"] exI [of _ "?nm # ns'"]) auto
    qed
  qed
qed

lemma normalizePath_props:
  assumes "normalizePath p = Inr (np, ns)" "p \<noteq> []"
  shows "normOK np \<and> length ns = nsent np \<and> np \<noteq> [] \<and> hd np = hd p"
  using normalizeLoop_props [of p 0 "[]" "[]" np ns] assms
  by (auto simp: normalizePath_def hd_conv_nth)

lemma addRoute_wfRoot:
  assumes "n = emptyNode \<or> wfRoot n" "p \<noteq> []" "hd p = CHR ''/''"
    "addRoute n p (Some h) = (n', None)"
  shows "wfRoot n' \<and> handlers n' = handlers n + 1"
proof -
  from assms(4) obtain np ns where norm: "normalizePath p = Inr (np, ns)"
    by (auto simp: addRoute_def Let_def split: sum.splits)
  from normalizePath_props [OF norm assms(2)] assms(3)
  have np: "normOK np" "length ns = nsent np" "np \<noteq> []" "hd np = CHR ''/''" by auto
  from assms(1) show ?thesis
  proof
    assume e: "n = emptyNode"
    let ?b = "Node [] 1 root [] [] None None None [] :: 'a node"
    from assms(4) norm have r: "insertChild p (Some h) ns ?b np = (n', None)"
      by (simp add: addRoute_def e emptyNode_def)
    have "\<exists>m. insertChild p (Some h) ns ?b np = (m, None) \<and> wf 0 m \<and> handlers m = 1
       \<and> path m \<noteq> [] \<and> hd (path m) = hd np \<and> nType m = nType ?b \<and> priority m = 1"
      by (rule insertChild_blank) (use np in \<open>simp_all add: blank_def isWild_def\<close>)
    with r np show ?thesis by (auto simp: wfRoot_def e emptyNode_def handlers_Node)
  next
    assume wr: "wfRoot n"
    then have w: "wf 0 n" and hdn: "hd (path n) = CHR ''/''" by (simp_all add: wfRoot_def)
    from w have pne: "path n \<noteq> []" by (cases n) simp
    let ?n1 = "set_priority (priority n + 1) n"
    from assms(4) norm pne have r: "walk p (Some h) ns ?n1 np = (n', None)"
      by (simp add: addRoute_def Let_def)
    have pre: "wfPre 0 ?n1" using w by (rule wfPre_bump)
    from walk_walkOK [of p "Some h" ns ?n1 np] r np pre hdn
    have "wf 0 n' \<and> handlers n' = handlers ?n1 + 1 \<and> path n' \<noteq> [] \<and> hd (path n') = hd (path ?n1)"
      unfolding walkOK_def by (metis add_0 option.distinct(1) sel_set(10))
    with hdn show ?thesis by (simp add: wfRoot_def del: wf_Node)
  qed
qed

definition wfRouter :: "'h Router \<Rightarrow> bool" where
  "wfRouter r \<longleftrightarrow> distinct (map fst (trees r)) \<and> (\<forall>x \<in> set (trees r). wfRoot (snd x))"

lemma setTree_keys: "set (map fst (setTree m t ts)) = insert m (set (map fst ts))"
proof (induction ts)
  case Nil
  then show ?case by simp
next
  case (Cons x ts)
  obtain k v where x: "x = (k, v)" by (cases x)
  show ?case
  proof (cases "k = m")
    case True
    then show ?thesis by (simp add: x)
  next
    case False
    with Cons show ?thesis by (simp add: x insert_commute)
  qed
qed

lemma setTree_distinct: "distinct (map fst ts) \<Longrightarrow> distinct (map fst (setTree m t ts))"
proof (induction ts)
  case Nil
  then show ?case by simp
next
  case (Cons x ts)
  obtain k v where x: "x = (k, v)" by (cases x)
  from Cons show ?case
    using setTree_keys [of m t ts] by (auto simp: x)
qed

lemma setTree_vals: "x \<in> set (setTree m t ts) \<Longrightarrow> snd x = t \<or> x \<in> set ts"
  by (induction ts) (auto split: if_splits)

lemma setTree_twice: "setTree m t (setTree m t0 ts) = setTree m t ts"
  by (induction ts) auto

lemma setTree_wfRouter:
  assumes "wfRouter r" "wfRoot t" "trees r' = setTree m t (trees r)"
  shows "wfRouter r'"
proof -
  have "\<forall>x \<in> set (trees r'). wfRoot (snd x)"
  proof
    fix x assume "x \<in> set (trees r')"
    with assms(3) setTree_vals [of x m t "trees r"] have "snd x = t \<or> x \<in> set (trees r)" by simp
    with assms(1,2) show "wfRoot (snd x)" by (auto simp: wfRouter_def)
  qed
  with assms(1,3) setTree_distinct [of "trees r" m t] show ?thesis
    by (simp add: wfRouter_def)
qed

lemma Handler_wfRouter:
  assumes "wfRouter r" "Handler r m p (Some h) = (r', None)"
  shows "wfRouter r'"
proof -
  from assms(2) have p: "p \<noteq> []" "hd p = CHR ''/''"
    by (auto simp: Handler_def split: if_splits)
  show ?thesis
  proof (cases "map_of (trees r) m")
    case None
    from assms(2) None p obtain t' where
      a: "addRoute emptyNode p (Some h) = (t', None)" and
      r': "trees r' = setTree m t' (setTree m emptyNode (trees r))"
      by (auto simp: Handler_def Let_def split: if_splits sum.splits prod.splits)
    from addRoute_wfRoot [OF _ p a] have "wfRoot t'" by simp
    from setTree_wfRouter [OF assms(1) this] r' show ?thesis by (simp add: setTree_twice)
  next
    case (Some t)
    from assms(2) Some p obtain t' where
      a: "addRoute t p (Some h) = (t', None)" and
      r': "trees r' = setTree m t' (trees r)"
      by (auto simp: Handler_def Let_def split: if_splits sum.splits prod.splits)
    from Some have "(m, t) \<in> set (trees r)" by (rule map_of_SomeD)
    with assms(1) have "wfRoot t" by (auto simp: wfRouter_def)
    from addRoute_wfRoot [OF _ p a] this have "wfRoot t'" by simp
    from setTree_wfRouter [OF assms(1) this r'] show ?thesis .
  qed
qed

lemma Handlers_wfRouter:
  "wfRouter r \<Longrightarrow> Handlers r regs = (r', None) \<Longrightarrow> wfRouter r'"
proof (induction regs arbitrary: r)
  case Nil
  then show ?case by simp
next
  case (Cons x regs)
  obtain m p h where x: "x = (m, p, h)" by (cases x)
  obtain r1 e where h1: "Handler r m p (Some h) = (r1, e)" by (cases "Handler r m p (Some h)")
  with Cons.prems x have e: "e = None" and rest: "Handlers r1 regs = (r', None)"
    by (auto split: option.splits)
  from Handler_wfRouter [OF Cons.prems(1)] h1 e have "wfRouter r1" by simp
  from Cons.IH [OF this rest] show ?case .
qed

lemma New_wfRouter: "wfRouter New"
  by (simp add: wfRouter_def New_def)

section \<open>Search on the empty path\<close>

lemma search_Nil [simp]: "search n [] = Inr (Some (n, []))"
  by (simp add: search.simps)

lemma Handler_abc:
  "Handler New ''GET'' ''/abc'' (Some h) =
     (\<lparr>trees = [(''GET'', Node ''/abc'' 1 root [] [] None None (Some h) [])],
       globalAllowed = ''GET, OPTIONS''\<rparr>, None)"
  by (simp add: Handler_def New_def addRoute_def emptyNode_def normalizePath_def
      normalizeLoop.simps insertChild.simps sortOuter.simps allowed_def MethodOptions_def)

text \<open>
  C10: on the empty path \<open>search\<close> returns the node it is called on, whatever its
  segment, with no captures; so \<open>lookup\<close> of the empty path returns the handler of a root
  that carries one, with no parameters, as after the only registration of \<open>/abc\<close>, whose
  root holds the whole path and the handler.
\<close>

theorem search_empty_path_returns_root:
  "search n [] = Inr (Some (n, []))
   \<and> (map_of (trees r) m = Some rootNode \<longrightarrow> handle rootNode = Some h \<longrightarrow>
        lookup r m [] = Inr (Some (h, [])))
   \<and> path (the (map_of (trees (fst (Handler New ''GET'' ''/abc'' (Some k)))) ''GET''))
        = ''/abc''
   \<and> lookup (fst (Handler New ''GET'' ''/abc'' (Some k))) ''GET'' [] = Inr (Some (k, []))"
  by (simp add: lookup_def Handler_abc)

theorem search_empty_path_returns_root_witness:
  "map_of (trees \<lparr>trees = [(''GET'', Node ''/x'' 1 root [] [] None None (Some (7::nat)) [])],
                  globalAllowed = []\<rparr>) ''GET''
     = Some (Node ''/x'' 1 root [] [] None None (Some 7) [])
   \<and> handle (Node ''/x'' 1 root [] [] None None (Some (7::nat)) []) = Some 7
   \<and> lookup \<lparr>trees = [(''GET'', Node ''/x'' 1 root [] [] None None (Some (7::nat)) [])],
               globalAllowed = []\<rparr> ''GET'' [] = Inr (Some (7, []))"
  using search_empty_path_returns_root
    [of "Node ''/x'' 1 root [] [] None None (Some (7::nat)) []"
        "\<lparr>trees = [(''GET'', Node ''/x'' 1 root [] [] None None (Some (7::nat)) [])],
          globalAllowed = []\<rparr>"
        "''GET''" "Node ''/x'' 1 root [] [] None None (Some (7::nat)) []" 7 "0::nat"]
  by simp

section \<open>A second parameter at a position that holds one\<close>

text \<open>
  C5: after \<open>/cmd/:tool/:box\<close> the registration of \<open>/cmd/:tool/:set\<close> reaches the branch of
  \<open>insertChild\<close> for a node that has a parameter child already. The branch builds the
  message of its panic with \<open>denormalizePath(fullpath, n.wildcardNames)\<close>, on the raw
  pattern and the names of a node that carries no handler, and that call indexes past the
  end of the empty list of names: the registration ends in the runtime's index panic and
  the panic for an ambiguous path is not reached. The literal \<open>/cmd/:tool/axe\<close> beside the
  parameter is accepted.
\<close>

theorem ambiguous_param_panics_in_denormalizePath:
  "snd (addRoutes emptyNode [(''/cmd/:tool/:box'', 1::nat), (''/cmd/:tool/:set'', 2)])
     = Some IndexOutOfRange
   \<and> snd (addRoutes emptyNode [(''/cmd/:tool/:box'', 1::nat), (''/cmd/:tool/:set'', 2)])
     \<noteq> Some AmbiguousPath
   \<and> denormalizePath ''/cmd/:tool/:set'' [] = Inl IndexOutOfRange
   \<and> snd (addRoutes emptyNode [(''/cmd/:tool/:box'', 1::nat), (''/cmd/:tool/axe'', 2)]) = None"
  by code_simp

section \<open>The catch-all branch of search\<close>





section \<open>Priorities and child indices after registration\<close>

text \<open>
  \<open>aligned n\<close>: \<open>indices\<close> and \<open>literals\<close> of the node have the same length, the bytes of
  \<open>indices\<close> are pairwise distinct, and the byte at each position is the first byte of the
  segment of the literal child at that position.
\<close>

definition aligned :: "'h node \<Rightarrow> bool" where
  "aligned n \<longleftrightarrow> length (indices n) = length (literals n) \<and> distinct (indices n)
     \<and> (\<forall>i < length (literals n). path (literals n ! i) \<noteq> []
           \<and> indices n ! i = hd (path (literals n ! i)))"

text \<open>Every node of a tree that satisfies the invariant satisfies one of its three forms.\<close>

lemma nodes_kinds:
  "(wf d n \<or> wfParam d n \<or> wfCatch d n) \<Longrightarrow> x \<in> set (nodes n) \<Longrightarrow>
   \<exists>d'. wf d' x \<or> wfParam d' x \<or> wfCatch d' x"
proof (induction n arbitrary: d)
  case (Node p pr t ls ix w c h ns)
  let ?n = "Node p pr t ls ix w c h ns"
  from Node.prems(2) consider "x = ?n" | y where "y \<in> set ls" "x \<in> set (nodes y)"
    | y where "w = Some y" "x \<in> set (nodes y)" | y where "c = Some y" "x \<in> set (nodes y)"
    by (auto split: option.splits)
  then show ?case
  proof cases
    case 1
    with Node.prems(1) show ?thesis by blast
  next
    case 2
    with Node.prems(1) have "wf d y" by auto
    with Node.IH(1) 2 show ?thesis by blast
  next
    case 3
    with Node.prems(1) have "wfParam (Suc d) y" by auto
    with Node.IH(2) 3 show ?thesis by (metis option.set_intros)
  next
    case 4
    with Node.prems(1) have "wfCatch (Suc d) y" by auto
    with Node.IH(3) 4 show ?thesis by (metis option.set_intros)
  qed
qed

lemma wf_path_ne: "wf d n \<Longrightarrow> path n \<noteq> []"
  by (cases n) simp

lemma wf_aligned: "wf d n \<Longrightarrow> aligned n"
proof (cases n)
  case (Node p pr t ls ix w c h ns)
  assume w: "wf d n"
  with Node have "path (ls ! i) \<noteq> []" if "i < length ls" for i
    using that nth_mem [OF that] wf_path_ne [of d "ls ! i"] by simp
  with w Node show ?thesis by (auto simp: aligned_def)
qed

lemma wfCatch_facts: "wfCatch d n \<Longrightarrow> aligned n \<and> priority n = of_nat (handlers n) \<and> nType n = catchAllT"
  by (cases n) (auto simp: aligned_def handlers_Node)

lemma wfParam_facts:
  "wfParam d n \<Longrightarrow> nType n = param \<and> length (literals n) \<le> 1
     \<and> (indices n = [] \<or> aligned n)"
proof (cases n)
  case (Node p pr t ls ix w c h ns)
  assume w: "wfParam d n"
  show ?thesis
  proof (cases ls)
    case Nil
    with w Node show ?thesis by auto
  next
    case (Cons x xs)
    with w Node have "xs = []" "wf d x" by auto
    with w Node Cons wf_path_ne [of d x] show ?thesis by (auto simp: aligned_def)
  qed
qed

lemma Handlers_New_wfRoot:
  assumes "Handlers New regs = (r, None)" "(m, t) \<in> set (trees r)"
  shows "wfRoot t"
  using Handlers_wfRouter [OF New_wfRouter assms(1)] assms(2) by (auto simp: wfRouter_def)

text \<open>
  C4, as the code has it: after a sequence of registrations on a new router none of which
  panicked, the priority of the root of every tree, and of every node of the tree that is
  not a parameter node, is the number of handler-carrying nodes of its subtree (as the
  \<open>uint32\<close> field holds it, that is modulo \<open>2 ^ 32\<close>). The walk of \<open>addRoute\<close> steps into
  a parameter node without incrementing its priority, which stays at the \<open>1\<close> that
  \<open>insertChild\<close> gave it.
\<close>

theorem priority_counts_handlers_except_param:
  assumes "Handlers New regs = (r, None)" and "(m, t) \<in> set (trees r)"
  shows "priority t = of_nat (handlers t)
    \<and> (\<forall>x \<in> set (nodes t). nType x \<noteq> param \<longrightarrow> priority x = of_nat (handlers x))"
proof -
  from Handlers_New_wfRoot [OF assms] have w: "wf 0 t" by (simp add: wfRoot_def)
  have "priority x = of_nat (handlers x)" if "x \<in> set (nodes t)" "nType x \<noteq> param" for x
  proof -
    from nodes_kinds [of 0 t x] w that(1) obtain d' where "wf d' x \<or> wfParam d' x \<or> wfCatch d' x"
      by blast
    with that(2) show ?thesis
      using wf_handlers wfCatch_facts wfParam_facts by blast
  qed
  with w show ?thesis by (simp add: wf_handlers)
qed

text \<open>
  The theorem at the trees of \<open>/a/:b/x\<close>, \<open>/a/:b/y\<close> for \<open>GET\<close> and \<open>/c\<close> for \<open>POST\<close>: the
  root of the \<open>GET\<close> tree and the literal node below its parameter both have priority 2.
\<close>

theorem priority_counts_handlers_except_param_witness:
  "priority (Node ''/a/'' 2 root [] []
        (Some (Node '':'' 1 param
            [Node ''/'' 2 static
              [Node ''x'' 1 static [] [] None None (Some (1::nat)) [''b''],
               Node ''y'' 1 static [] [] None None (Some 2) [''b'']]
              ''xy'' None None None [''b'']]
            [] None None None []))
        None None []) = of_nat 2
   \<and> priority (Node ''/'' 2 static
              [Node ''x'' 1 static [] [] None None (Some (1::nat)) [''b''],
               Node ''y'' 1 static [] [] None None (Some 2) [''b'']]
              ''xy'' None None None [''b'']) = of_nat 2"
proof -
  let ?regs = "[(''GET'', ''/a/:b/x'', 1::nat), (''GET'', ''/a/:b/y'', 2), (''POST'', ''/c'', 3)]"
  let ?x = "Node ''/'' 2 static
              [Node ''x'' 1 static [] [] None None (Some (1::nat)) [''b''],
               Node ''y'' 1 static [] [] None None (Some 2) [''b'']]
              ''xy'' None None None [''b'']"
  let ?t = "Node ''/a/'' 2 root [] [] (Some (Node '':'' 1 param [?x] [] None None None []))
        None None []"
  have 1: "Handlers New ?regs = (fst (Handlers New ?regs), None)" by code_simp
  have 2: "(''GET'', ?t) \<in> set (trees (fst (Handlers New ?regs)))" by code_simp
  have 3: "?x \<in> set (nodes ?t)" "nType ?x \<noteq> param" by code_simp+
  have 4: "handlers ?t = 2" "handlers ?x = 2" by code_simp+
  from priority_counts_handlers_except_param [OF 1 2] 3 4 show ?thesis by auto
qed

text \<open>
  C4 as stated fails at the parameter node of the same \<open>GET\<close> tree: two handlers are
  registered below it, and its priority is 1.
\<close>

theorem param_priority_not_handlers:
  "Handlers New [(''GET'', ''/a/:b/x'', 1::nat), (''GET'', ''/a/:b/y'', 2)]
     = (\<lparr>trees = [(''GET'', Node ''/a/'' 2 root [] []
        (Some (Node '':'' 1 param
            [Node ''/'' 2 static
              [Node ''x'' 1 static [] [] None None (Some 1) [''b''],
               Node ''y'' 1 static [] [] None None (Some 2) [''b'']]
              ''xy'' None None None [''b'']]
            [] None None None []))
        None None [])], globalAllowed = ''GET, OPTIONS''\<rparr>, None)
   \<and> priority (Node '':'' 1 param
            [Node ''/'' 2 static
              [Node ''x'' 1 static [] [] None None (Some (1::nat)) [''b''],
               Node ''y'' 1 static [] [] None None (Some 2) [''b'']]
              ''xy'' None None None [''b'']]
            [] None None None []) = 1
   \<and> handlers (Node '':'' 1 param
            [Node ''/'' 2 static
              [Node ''x'' 1 static [] [] None None (Some (1::nat)) [''b''],
               Node ''y'' 1 static [] [] None None (Some 2) [''b'']]
              ''xy'' None None None [''b'']]
            [] None None None []) = 2"
  by code_simp

text \<open>
  C8, as the code has it: after a sequence of registrations on a new router none of which
  panicked, every node that is not a parameter node is \<open>aligned\<close>. A parameter node has at
  most one literal child, which \<open>search\<close> and \<open>addRoute\<close> reach as \<open>literals[0]\<close>; its
  \<open>indices\<close> is empty when \<open>insertChild\<close> created the child and aligned when \<open>addRoute\<close>
  appended it.
\<close>

theorem indices_aligned_except_param:
  assumes "Handlers New regs = (r, None)" and "(m, t) \<in> set (trees r)"
  shows "\<forall>x \<in> set (nodes t).
     (nType x \<noteq> param \<longrightarrow> aligned x)
     \<and> (nType x = param \<longrightarrow> length (literals x) \<le> 1 \<and> (indices x = [] \<or> aligned x))"
proof
  fix x assume x: "x \<in> set (nodes t)"
  from Handlers_New_wfRoot [OF assms] have w: "wf 0 t" by (simp add: wfRoot_def)
  from nodes_kinds [of 0 t x] w x obtain d' where k: "wf d' x \<or> wfParam d' x \<or> wfCatch d' x"
    by blast
  have "wf d' x \<Longrightarrow> nType x \<noteq> param" by (cases x) auto
  with k show "(nType x \<noteq> param \<longrightarrow> aligned x)
     \<and> (nType x = param \<longrightarrow> length (literals x) \<le> 1 \<and> (indices x = [] \<or> aligned x))"
    using wf_aligned wfCatch_facts wfParam_facts by (metis nodeType.distinct(11))
qed

text \<open>
  The theorem at the same trees: the literal node with the children \<open>x\<close> and \<open>y\<close> is aligned,
  and the parameter node has one literal child.
\<close>

theorem indices_aligned_except_param_witness:
  "aligned (Node ''/'' 2 static
              [Node ''x'' 1 static [] [] None None (Some (1::nat)) [''b''],
               Node ''y'' 1 static [] [] None None (Some 2) [''b'']]
              ''xy'' None None None [''b''])
   \<and> length (literals (Node '':'' 1 param
            [Node ''/'' 2 static
              [Node ''x'' 1 static [] [] None None (Some (1::nat)) [''b''],
               Node ''y'' 1 static [] [] None None (Some 2) [''b'']]
              ''xy'' None None None [''b'']]
            [] None None None [])) \<le> 1"
proof -
  let ?regs = "[(''GET'', ''/a/:b/x'', 1::nat), (''GET'', ''/a/:b/y'', 2), (''POST'', ''/c'', 3)]"
  let ?x = "Node ''/'' 2 static
              [Node ''x'' 1 static [] [] None None (Some (1::nat)) [''b''],
               Node ''y'' 1 static [] [] None None (Some 2) [''b'']]
              ''xy'' None None None [''b'']"
  let ?w = "Node '':'' 1 param [?x] [] None None None []"
  let ?t = "Node ''/a/'' 2 root [] [] (Some ?w) None None []"
  have 1: "Handlers New ?regs = (fst (Handlers New ?regs), None)" by code_simp
  have 2: "(''GET'', ?t) \<in> set (trees (fst (Handlers New ?regs)))" by code_simp
  have 3: "?x \<in> set (nodes ?t)" "nType ?x \<noteq> param" by code_simp+
  have 4: "?w \<in> set (nodes ?t)" "nType ?w = param" by code_simp+
  from indices_aligned_except_param [OF 1 2] 3 4 show ?thesis by blast
qed

text \<open>
  C8 as stated fails at the parameter node of the tree of \<open>/a/:b/c\<close>: it has one literal
  child and an empty \<open>indices\<close>.
\<close>

theorem param_indices_not_aligned:
  "Handlers New [(''GET'', ''/a/:b/c'', 1::nat)]
     = (\<lparr>trees = [(''GET'', Node ''/a/'' 1 root [] []
        (Some (Node '':'' 1 param
            [Node ''/c'' 1 static [] [] None None (Some 1) [''b'']] [] None None None []))
        None None [])], globalAllowed = ''GET, OPTIONS''\<rparr>, None)
   \<and> length (literals (Node '':'' 1 param
            [Node ''/c'' 1 static [] [] None None (Some (1::nat)) [''b'']] [] None None None [])) = 1
   \<and> length (indices (Node '':'' 1 param
            [Node ''/c'' 1 static [] [] None None (Some (1::nat)) [''b'']] [] None None None [])) = 0"
  by code_simp

section \<open>Search and lookup on the trees that registration builds\<close>

text \<open>
  \<open>good d r\<close>: the result \<open>r\<close> of a search below \<open>d\<close> wildcards is not a panic, and a node
  it returns with a handler has as many parameter names as the \<open>d\<close> values captured above
  plus the values captured by that search.
\<close>

definition good :: "nat \<Rightarrow> error + ('h node \<times> string list) option \<Rightarrow> bool" where
  "good d r \<longleftrightarrow> (\<exists>res. r = Inr res \<and>
     (\<forall>f ps. res = Some (f, ps) \<longrightarrow> handle f \<noteq> None \<longrightarrow> length (wildcardNames f) = d + length ps))"

lemma good_None [simp]: "good d (Inr None)"
  by (simp add: good_def)

lemma good_Inr: "good d (Inr (Some (f, ps))) \<longleftrightarrow> (handle f \<noteq> None \<longrightarrow> length (wildcardNames f) = d + length ps)"
  by (simp add: good_def)

lemma good_catchAll:
  "wf d n \<Longrightarrow> good d (case catchAll n of Some c \<Rightarrow> Inr (Some (c, [q])) | None \<Rightarrow> Inr None)"
proof (cases n)
  case (Node p pr t ls ix w c h ns)
  assume "wf d n"
  with Node show ?thesis
    by (cases c) (auto simp: good_Inr elim!: wfCatch.elims)
qed

lemma search_good:
  "(\<forall>d. wf d n \<longrightarrow> good d (search n p))"
  "(\<forall>d. wf d n \<longrightarrow> good d (searchLiterals n p1 i))"
  "(\<forall>d. wf d n \<longrightarrow> good d (searchWild n p2))"
proof (induction n p and n p1 i and n p2 rule: search_searchLiterals_searchWild.induct)
  case (1 n p)
  show ?case
  proof (intro allI impI)
    fix d assume w: "wf d n"
    show "good d (search n p)"
    proof (cases "p = []")
      case True
      with w show ?thesis by (cases n) (auto simp: good_Inr)
    next
      case ne: False
      show ?thesis
      proof (cases "take (length (path n)) p = path n")
        case False
        with ne 1(3) w show ?thesis by (subst search.simps) simp
      next
        case True
        let ?p1 = "drop (length (path n)) p"
        show ?thesis
        proof (cases "?p1 = []")
          case True2: True
          with ne True w show ?thesis
            by (subst search.simps) (cases n, auto simp: good_Inr)
        next
          case False
          from 1(1) [OF ne True refl False] w have g: "good d (searchLiterals n ?p1 0)" by simp
          then obtain res where res: "searchLiterals n ?p1 0 = Inr res" by (auto simp: good_def)
          show ?thesis
          proof (cases res)
            case None
            with 1(2) [OF ne True refl False] res w have "good d (searchWild n ?p1)" by simp
            with ne True False res None show ?thesis by (subst search.simps) simp
          next
            case (Some r)
            with ne True False res g show ?thesis by (subst search.simps) simp
          qed
        qed
      qed
    qed
  qed
next
  case (2 n p i)
  show ?case
  proof (intro allI impI)
    fix d assume w: "wf d n"
    then have al: "length (indices n) = length (literals n)" "\<forall>x \<in> set (literals n). wf d x"
      by (cases n; simp)+
    show "good d (searchLiterals n p i)"
    proof (cases "i < length (indices n)")
      case False
      then show ?thesis by (subst searchLiterals.simps) simp
    next
      case lt: True
      show ?thesis
      proof (cases "indices n ! i = hd p")
        case False
        with lt 2(3) w show ?thesis by (subst searchLiterals.simps) simp
      next
        case True
        from lt al have li: "i < length (literals n)" and wc: "wf d (literals n ! i)" by auto
        from 2(1) [OF lt True li] wc have g: "good d (search (literals n ! i) p)" by simp
        then obtain res where res: "search (literals n ! i) p = Inr res" by (auto simp: good_def)
        show ?thesis
        proof (cases res)
          case None
          with 2(2) [OF lt True li] res w have "good d (searchLiterals n p (Suc i))" by simp
          with lt True li res None show ?thesis by (subst searchLiterals.simps) simp
        next
          case (Some r)
          with lt True li res g show ?thesis by (subst searchLiterals.simps) simp
        qed
      qed
    qed
  qed
next
  case (3 n p)
  show ?case
  proof (intro allI impI)
    fix d assume w: "wf d n"
    show "good d (searchWild n p)"
    proof (cases "p \<noteq> [] \<and> hd p \<noteq> CHR ''/''")
      case False
      then show ?thesis by (subst searchWild.simps) auto
    next
      case c: True
      show ?thesis
      proof (cases "wild n")
        case None
        with c good_catchAll [OF w, of p] show ?thesis by (subst searchWild.simps) simp
      next
        case (Some wn)
        with w have wp: "wfParam (Suc d) wn" by (cases n) auto
        let ?e = "indexByte p (CHR ''/'')"
        let ?token = "case ?e of Some k \<Rightarrow> if 0 < k then take k p else p | None \<Rightarrow> p"
        let ?p2 = "case ?e of Some k \<Rightarrow> if 0 < k then drop k p else [] | None \<Rightarrow> []"
        show ?thesis
        proof (cases "?p2 \<noteq> []")
          case False
          with c Some wp good_catchAll [OF w, of ?p2] show ?thesis
            by (subst searchWild.simps) (cases wn, auto simp: Let_def good_Inr)
        next
          case p2: True
          show ?thesis
          proof (cases "literals wn \<noteq> []")
            case False
            with c Some p2 good_catchAll [OF w, of ?p2] show ?thesis
              by (subst searchWild.simps) (simp add: Let_def)
          next
            case True
            with wp have wc: "wf (Suc d) (hd (literals wn))" by (cases wn; cases "literals wn") auto
            from 3 [OF c Some refl refl refl p2 True] wc
            have g: "good (Suc d) (search (hd (literals wn)) ?p2)" by simp
            then obtain res where res: "search (hd (literals wn)) ?p2 = Inr res" by (auto simp: good_def)
            show ?thesis
            proof (cases res)
              case None
              with c Some p2 True res good_catchAll [OF w, of ?p2] show ?thesis
                by (subst searchWild.simps) (simp add: Let_def)
            next
              case (Some r)
              obtain f ps where r: "r = (f, ps)" by (cases r)
              with g res Some have "handle f \<noteq> None \<longrightarrow> length (wildcardNames f) = Suc d + length ps"
                by (simp add: good_Inr)
              with c \<open>wild n = Some wn\<close> p2 True res Some r show ?thesis
                by (subst searchWild.simps) (simp add: Let_def good_Inr)
            qed
          qed
        qed
      qed
    qed
  qed
qed

lemma zipParams_ok:
  "i + length names \<le> length pv \<Longrightarrow> length params = length pv \<Longrightarrow>
   \<exists>r. zipParams names pv i params = Inr r \<and> length r = length pv"
  by (induction names pv i params rule: zipParams.induct) auto

lemma wfRoot_search: "wfRoot t \<Longrightarrow> good 0 (search t p)"
  using search_good(1) [of t p] by (simp add: wfRoot_def)

text \<open>
  C9: on every tree of a router built by a sequence of registrations none of which
  panicked, \<open>search\<close> returns for every path, and \<open>lookup\<close> returns for every method and
  every path, without a panic. Both functions are total, so they terminate; in them every
  index into \<open>indices\<close>, \<open>literals\<close>, the captured values and the parameter names that is
  out of range is the panic \<open>IndexOutOfRange\<close>, which the result \<open>Inr\<close> excludes.
\<close>

theorem search_and_lookup_never_panic:
  assumes "Handlers New regs = (r, None)"
  shows "(\<forall>m t p. (m, t) \<in> set (trees r) \<longrightarrow> (\<exists>res. search t p = Inr res))
     \<and> (\<forall>m p. \<exists>res. lookup r m p = Inr res)"
proof (intro conjI allI impI)
  fix m t p assume "(m, t) \<in> set (trees r)"
  from wfRoot_search [OF Handlers_New_wfRoot [OF assms this], of p]
  show "\<exists>res. search t p = Inr res" by (auto simp: good_def)
next
  fix m p
  show "\<exists>res. lookup r m p = Inr res"
  proof (cases "map_of (trees r) m")
    case None
    then show ?thesis by (simp add: lookup_def)
  next
    case (Some t)
    then have "(m, t) \<in> set (trees r)" by (rule map_of_SomeD)
    from wfRoot_search [OF Handlers_New_wfRoot [OF assms this], of p]
    obtain res where res: "search t p = Inr res"
      and len: "\<forall>f ps. res = Some (f, ps) \<longrightarrow> handle f \<noteq> None \<longrightarrow> length (wildcardNames f) = length ps"
      by (auto simp: good_def)
    show ?thesis
    proof (cases res)
      case None
      with Some res show ?thesis by (simp add: lookup_def)
    next
      case found: (Some a)
      obtain f ps where a: "a = (f, ps)" by (cases a)
      show ?thesis
      proof (cases "handle f")
        case None
        with Some res found a show ?thesis by (simp add: lookup_def)
      next
        case h: (Some h)
        with len found a have "length (wildcardNames f) = length ps" by simp
        with zipParams_ok [of 0 "wildcardNames f" ps "replicate (length ps) \<lparr>Key = [], Value = []\<rparr>"]
        obtain zs where "zipParams (wildcardNames f) ps 0 (replicate (length ps) \<lparr>Key = [], Value = []\<rparr>) = Inr zs"
          by auto
        with Some res found a h show ?thesis by (simp add: lookup_def)
      qed
    qed
  qed
qed

text \<open>
  The theorem at the router of \<open>/a/:b\<close>, \<open>/a/*rest\<close> and \<open>/a/:b/x\<close> for \<open>GET\<close>: a path with
  wildcard characters and doubled slashes, a path that does not begin with a slash, and
  the empty path.
\<close>

theorem search_and_lookup_never_panic_witness:
  "(\<exists>res. search (fst (addRoutes emptyNode [(''/a/:b'', 1::nat), (''/a/*rest'', 2), (''/a/:b/x'', 3)])) ''/a/:*//x'' = Inr res)
   \<and> (\<exists>res. lookup (fst (Handlers New [(''GET'', ''/a/:b'', 1::nat), (''GET'', ''/a/*rest'', 2), (''GET'', ''/a/:b/x'', 3)])) ''GET'' ''a/'' = Inr res)
   \<and> (\<exists>res. lookup (fst (Handlers New [(''GET'', ''/a/:b'', 1::nat), (''GET'', ''/a/*rest'', 2), (''GET'', ''/a/:b/x'', 3)])) ''GET'' [] = Inr res)"
proof -
  let ?regs = "[(''GET'', ''/a/:b'', 1::nat), (''GET'', ''/a/*rest'', 2), (''GET'', ''/a/:b/x'', 3)]"
  let ?t = "fst (addRoutes emptyNode [(''/a/:b'', 1::nat), (''/a/*rest'', 2), (''/a/:b/x'', 3)])"
  have 1: "Handlers New ?regs = (fst (Handlers New ?regs), None)" by code_simp
  have 2: "(''GET'', ?t) \<in> set (trees (fst (Handlers New ?regs)))" by code_simp
  from search_and_lookup_never_panic [OF 1] 2 show ?thesis by blast
qed

section \<open>The methods allowed for a path\<close>

text \<open>\<open>hasMatch t p\<close>: the search of \<open>p\<close> in the tree \<open>t\<close> returns a node that carries a handler.\<close>

definition hasMatch :: "'h node \<Rightarrow> string \<Rightarrow> bool" where
  "hasMatch t p \<longleftrightarrow> (case search t p of Inr (Some (f, ps)) \<Rightarrow> handle f \<noteq> None | _ \<Rightarrow> False)"

text \<open>The insertion sort of \<open>allowed\<close> sorts.\<close>

lemma sortInner_props:
  "sorted A \<Longrightarrow> \<exists>A'. sortInner (A @ x # R) (length A) = A' @ R \<and> sorted A' \<and> mset A' = mset (A @ [x])"
proof (induction A arbitrary: R rule: rev_induct)
  case Nil
  show ?case by (intro exI [of _ "[x]"]) simp
next
  case (snoc a A)
  from snoc.prems have sA: "sorted A" and le: "\<forall>y \<in> set A. y \<le> a"
    by (auto simp: sorted_append)
  have n1: "((A @ [a]) @ x # R) ! Suc (length A) = x" by (simp add: nth_append)
  have n2: "((A @ [a]) @ x # R) ! length A = a" by (simp add: nth_append)
  show ?case
  proof (cases "x < a")
    case True
    have sw: "((A @ [a]) @ x # R)[Suc (length A) := a, length A := x] = A @ x # a # R"
      by (simp add: list_update_append)
    from snoc.IH [OF sA, of "a # R"] obtain A' where
      A': "sortInner (A @ x # a # R) (length A) = A' @ a # R" "sorted A'" "mset A' = mset (A @ [x])"
      by auto
    from A'(3) have "set A' = set (A @ [x])" by (rule mset_eq_setD)
    with le True have "\<forall>y \<in> set A'. y \<le> a" by auto
    with A'(2) have "sorted (A' @ [a])" by (simp add: sorted_append)
    with True n1 n2 sw A' show ?thesis
      by (intro exI [of _ "A' @ [a]"]) simp
  next
    case False
    with snoc.prems have "sorted ((A @ [a]) @ [x])" by (auto simp: sorted_append)
    with False n1 n2 show ?thesis
      by (intro exI [of _ "(A @ [a]) @ [x]"]) simp
  qed
qed

lemma sortOuter_props:
  "sorted P \<Longrightarrow> sorted (sortOuter (P @ R) (length P)) \<and> mset (sortOuter (P @ R) (length P)) = mset (P @ R)"
proof (induction R arbitrary: P)
  case Nil
  then show ?case by (subst (1 2) sortOuter.simps) simp
next
  case (Cons x R)
  from sortInner_props [OF Cons.prems, of x R] obtain A' where
    A': "sortInner (P @ x # R) (length P) = A' @ R" "sorted A'" "mset A' = mset (P @ [x])" by auto
  from A'(3) have l: "length A' = length P + 1" using mset_eq_length [of "A'" "P @ [x]"] by simp
  from Cons.IH [OF A'(2)] l A'(3)
  have "sorted (sortOuter (A' @ R) (length P + 1)) \<and> mset (sortOuter (A' @ R) (length P + 1)) = mset (P @ x # R)"
    by simp
  with A'(1) show ?case by (subst (1 2) sortOuter.simps) simp
qed

lemma sortOuter_sort: "xs \<noteq> [] \<Longrightarrow> sortOuter xs (Suc 0) = sort xs"
proof -
  assume "xs \<noteq> []"
  then obtain x R where xs: "xs = [x] @ R" by (cases xs) auto
  from sortOuter_props [of "[x]" R] have "sorted (sortOuter xs (Suc 0))" "mset (sortOuter xs (Suc 0)) = mset xs"
    by (simp_all add: xs)
  then show ?thesis by (simp add: properties_for_sort)
qed

text \<open>On trees that satisfy the invariant the loop of \<open>allowed\<close> is a filter.\<close>

lemma allowedLoop_eq:
  "\<forall>x \<in> set ts. wfRoot (snd x) \<Longrightarrow>
   allowedLoop ts p reqMethod acc =
     Inr (acc @ map fst (filter (\<lambda>(m, t). m \<noteq> reqMethod \<and> m \<noteq> MethodOptions \<and> hasMatch t p) ts))"
proof (induction ts arbitrary: acc)
  case Nil
  then show ?case by simp
next
  case (Cons x ts)
  obtain m t where x: "x = (m, t)" by (cases x)
  from Cons.prems x have "good 0 (search t p)" by (simp add: wfRoot_search)
  then obtain res where res: "search t p = Inr res" by (auto simp: good_def)
  from Cons.prems have IH: "\<And>acc. allowedLoop ts p reqMethod acc =
     Inr (acc @ map fst (filter (\<lambda>(m, t). m \<noteq> reqMethod \<and> m \<noteq> MethodOptions \<and> hasMatch t p) ts))"
    using Cons.IH by simp
  show ?case
  proof (cases res)
    case None
    with res IH show ?thesis by (simp add: x hasMatch_def)
  next
    case (Some a)
    obtain f ps where "a = (f, ps)" by (cases a)
    with Some res IH show ?thesis by (auto simp: x hasMatch_def)
  qed
qed

text \<open>
  The allowed methods as the specification words them: the methods other than the
  excluded one and \<open>OPTIONS\<close> whose tree has a handler-bearing match for the path; when
  there is none the empty string, otherwise these methods with \<open>OPTIONS\<close> appended, sorted
  and joined with a comma and a space.
\<close>

definition allowedSpec :: "(string \<times> 'h node) list \<Rightarrow> string \<Rightarrow> string \<Rightarrow> string" where
  "allowedSpec ts p reqMethod =
     (let ms = map fst (filter (\<lambda>(m, t). m \<noteq> reqMethod \<and> m \<noteq> MethodOptions \<and> hasMatch t p) ts)
      in if ms = [] then [] else Join (sort (ms @ [MethodOptions])) '', '')"

lemma allowed_eq:
  assumes "\<forall>x \<in> set (trees r). wfRoot (snd x)" "p \<noteq> ''*''"
  shows "allowed r p reqMethod = Inr (allowedSpec (trees r) p reqMethod)"
  using assms allowedLoop_eq [of "trees r" p reqMethod "[]"]
  by (auto simp: allowed_def allowedSpec_def Let_def sortOuter_sort)

lemma allowedSpec_perm:
  assumes "mset ts' = mset ts"
  shows "allowedSpec ts' p reqMethod = allowedSpec ts p reqMethod"
proof -
  let ?f = "\<lambda>ts. map fst (filter (\<lambda>(m, t). m \<noteq> reqMethod \<and> m \<noteq> MethodOptions \<and> hasMatch t p) ts)"
  from assms have m: "mset (?f ts') = mset (?f ts)" by simp
  then have "mset (?f ts' @ [MethodOptions]) = mset (?f ts @ [MethodOptions])" by simp
  then have "sort (?f ts' @ [MethodOptions]) = sort (?f ts @ [MethodOptions])"
    by (intro properties_for_sort) simp_all
  moreover from m have "?f ts' = [] \<longleftrightarrow> ?f ts = []" using mset_eq_length [of "?f ts'" "?f ts"] by auto
  ultimately show ?thesis by (simp add: allowedSpec_def Let_def)
qed

text \<open>
  C7: on a router built by a sequence of registrations none of which panicked, and for a
  specific path (any path but the server-wide \<open>*\<close>), \<open>allowed\<close> returns what the
  specification says. Go visits the entries of the map \<open>trees\<close> in an order it does not
  fix; the result is the same for every order \<open>ts\<close> of the entries.
\<close>

theorem allowed_methods:
  assumes "Handlers New regs = (r, None)" and "p \<noteq> ''*''" and "mset ts = mset (trees r)"
  shows "allowed (r\<lparr>trees := ts\<rparr>) p reqMethod = Inr (allowedSpec (trees r) p reqMethod)"
proof -
  from assms(3) have "set ts = set (trees r)" by (rule mset_eq_setD)
  with Handlers_New_wfRoot [OF assms(1)] have "\<forall>x \<in> set (trees (r\<lparr>trees := ts\<rparr>)). wfRoot (snd x)"
    by auto
  from allowed_eq [OF this assms(2), of reqMethod] allowedSpec_perm [OF assms(3), of p reqMethod]
  show ?thesis by simp
qed

text \<open>
  The theorem at the router of \<open>/doc/\<close> for \<open>GET\<close> and \<open>POST\<close> and \<open>/other\<close> for \<open>PUT\<close>, with
  the entries visited in reverse: \<open>/doc/\<close> with no method excluded gives
  \<open>GET, OPTIONS, POST\<close>, and a path that no tree matches gives the empty string.
\<close>

theorem allowed_methods_witness:
  "allowed (fst (Handlers New [(''GET'', ''/doc/'', 1::nat), (''POST'', ''/doc/'', 2), (''PUT'', ''/other'', 3)])
             \<lparr>trees := rev (trees (fst (Handlers New
                 [(''GET'', ''/doc/'', 1::nat), (''POST'', ''/doc/'', 2), (''PUT'', ''/other'', 3)])))\<rparr>)
     ''/doc/'' [] = Inr ''GET, OPTIONS, POST''
   \<and> allowed (fst (Handlers New [(''GET'', ''/doc/'', 1::nat), (''POST'', ''/doc/'', 2), (''PUT'', ''/other'', 3)])
             \<lparr>trees := trees (fst (Handlers New
                 [(''GET'', ''/doc/'', 1::nat), (''POST'', ''/doc/'', 2), (''PUT'', ''/other'', 3)]))\<rparr>)
     ''/none'' ''GET'' = Inr []"
proof -
  let ?regs = "[(''GET'', ''/doc/'', 1::nat), (''POST'', ''/doc/'', 2), (''PUT'', ''/other'', 3)]"
  let ?r = "fst (Handlers New ?regs)"
  have 1: "Handlers New ?regs = (?r, None)" by code_simp
  have 2: "''/doc/'' \<noteq> ''*''" "''/none'' \<noteq> ''*''" by simp_all
  have 3: "mset (rev (trees ?r)) = mset (trees ?r)" "mset (trees ?r) = mset (trees ?r)" by simp_all
  have 4: "allowedSpec (trees ?r) ''/doc/'' [] = ''GET, OPTIONS, POST''" by code_simp
  have 5: "allowedSpec (trees ?r) ''/none'' ''GET'' = []" by code_simp
  from allowed_methods [OF 1 2(1) 3(1), of "[]"] allowed_methods [OF 1 2(2) 3(2), of "''GET''"] 4 5
  show ?thesis by simp
qed

section \<open>Normalizing a pattern and writing it back\<close>

text \<open>
  \<open>utf8.ValidString\<close>: the string is a sequence of well-formed UTF-8 encodings, so that
  the loop of \<open>denormalizePath\<close> over its runes meets no ill-formed byte.
\<close>

function ValidString :: "string \<Rightarrow> bool" where
  "ValidString s =
     (if s = [] then True
      else if runeWidth s = 0 then False
      else ValidString (drop (runeWidth s) s))"
  by pat_completeness auto
termination
  by (relation "measure length") auto

declare ValidString.simps [simp del]

text \<open>
  The bytes of \<open>np\<close> with each wildcard character replaced by the next name of \<open>ns\<close>: what
  \<open>denormalizePath\<close> writes when every rune it reads is well formed.
\<close>

fun substNames :: "string \<Rightarrow> string list \<Rightarrow> string" where
  "substNames [] ns = []"
| "substNames (c # cs) ns =
     (if isWild c then (case ns of [] \<Rightarrow> [] | m # ms \<Rightarrow> m @ substNames cs ms)
      else c # substNames cs ns)"

lemma inRange_nowild: "inRange lo hi c \<Longrightarrow> 128 \<le> lo \<Longrightarrow> \<not> isWild c"
  by (auto simp: inRange_def isWild_def)

lemma wild_ascii: "isWild c \<Longrightarrow> inRange 0x00 0x7F c"
  by (auto simp: inRange_def isWild_def)

lemma runeWidth_wild: "s \<noteq> [] \<Longrightarrow> isWild (hd s) \<Longrightarrow> runeWidth s = 1"
  by (cases s) (simp_all add: wild_ascii)

lemma rune_tail:
  assumes "0 < runeWidth (b0 # bs)"
  shows "\<forall>c \<in> set (take (runeWidth (b0 # bs) - 1) bs). \<not> isWild c"
proof (cases "inRange 0x00 0x7F b0")
  case True
  then show ?thesis by simp
next
  case n1: False
  show ?thesis
  proof (cases "inRange 0xC2 0xDF b0")
    case True
    show ?thesis
    proof (cases bs)
      case Nil
      with n1 True assms show ?thesis by simp
    next
      case (Cons b1 r)
      show ?thesis
      proof (cases "inRange 0x80 0xBF b1")
        case False
        with n1 True Cons assms show ?thesis by simp
      next
        case b1: True
        then have "\<not> isWild b1" by (rule inRange_nowild) simp
        with n1 True Cons b1 show ?thesis by simp
      qed
    qed
  next
    case n2: False
    show ?thesis
    proof (cases "inRange 0xE0 0xEF b0")
      case True
      let ?lo = "if b0 = CHR 0xE0 then 0xA0 else (0x80 :: nat)"
      let ?hi = "if b0 = CHR 0xED then 0x9F else (0xBF :: nat)"
      have lo: "128 \<le> ?lo" by simp
      show ?thesis
      proof (cases bs)
        case Nil
        with n1 n2 True assms show ?thesis by simp
      next
        case c1: (Cons b1 r)
        show ?thesis
        proof (cases r)
          case Nil
          with n1 n2 True c1 assms show ?thesis by simp
        next
          case c2: (Cons b2 r2)
          show ?thesis
          proof (cases "inRange ?lo ?hi b1 \<and> inRange 0x80 0xBF b2")
            case False
            with n1 n2 True c1 c2 assms show ?thesis by (simp del: if_split split del: if_split)
          next
            case ok: True
            from ok have "\<not> isWild b1" using lo by (intro inRange_nowild [of ?lo ?hi b1]) simp_all
            moreover from ok have "\<not> isWild b2" by (intro inRange_nowild [of 128 191 b2]) simp_all
            moreover from n1 n2 True c1 c2 ok have "runeWidth (b0 # bs) = 3"
              by (simp split del: if_split)
            ultimately show ?thesis using c1 c2 by (simp add: eval_nat_numeral)
          qed
        qed
      qed
    next
      case n3: False
      show ?thesis
      proof (cases "inRange 0xF0 0xF4 b0")
        case False
        with n1 n2 n3 assms show ?thesis by simp
      next
        case True
        let ?lo = "if b0 = CHR 0xF0 then 0x90 else (0x80 :: nat)"
        let ?hi = "if b0 = CHR 0xF4 then 0x8F else (0xBF :: nat)"
        have lo: "128 \<le> ?lo" by simp
        show ?thesis
        proof (cases bs)
          case Nil
          with n1 n2 n3 True assms show ?thesis by simp
        next
          case c1: (Cons b1 r)
          show ?thesis
          proof (cases r)
            case Nil
            with n1 n2 n3 True c1 assms show ?thesis by simp
          next
            case c2: (Cons b2 r2)
            show ?thesis
            proof (cases r2)
              case Nil
              with n1 n2 n3 True c1 c2 assms show ?thesis by simp
            next
              case c3: (Cons b3 r3)
              show ?thesis
              proof (cases "inRange ?lo ?hi b1 \<and> inRange 0x80 0xBF b2 \<and> inRange 0x80 0xBF b3")
                case False
                with n1 n2 n3 True c1 c2 c3 assms show ?thesis
                  by (simp del: if_split split del: if_split)
              next
                case ok: True
                from ok have "\<not> isWild b1" using lo
                  by (intro inRange_nowild [of ?lo ?hi b1]) simp_all
                moreover from ok have "\<not> isWild b2"
                  by (intro inRange_nowild [of 128 191 b2]) simp_all
                moreover from ok have "\<not> isWild b3"
                  by (intro inRange_nowild [of 128 191 b3]) simp_all
                moreover from n1 n2 n3 True c1 c2 c3 ok have "runeWidth (b0 # bs) = 4"
                  by (simp split del: if_split)
                ultimately show ?thesis using c1 c2 c3 by (simp add: eval_nat_numeral)
              qed
            qed
          qed
        qed
      qed
    qed
  qed
qed

lemma rune_nowild:
  assumes "0 < runeWidth s" "\<not> isWild (hd s)"
  shows "\<forall>c \<in> set (take (runeWidth s) s). \<not> isWild c"
proof (cases s)
  case Nil
  then show ?thesis by simp
next
  case (Cons b0 bs)
  from assms(1) obtain k where k: "runeWidth s = Suc k" by (cases "runeWidth s") auto
  from rune_tail [of b0 bs] assms(1) Cons k have "\<forall>c \<in> set (take k bs). \<not> isWild c" by simp
  with assms(2) Cons k show ?thesis by simp
qed

lemma substNames_append:
  "\<forall>c \<in> set xs. \<not> isWild c \<Longrightarrow> substNames (xs @ ys) ns = xs @ substNames ys ns"
  by (induction xs) auto

lemma nsent_append_lit: "\<forall>c \<in> set xs. \<not> isWild c \<Longrightarrow> nsent (xs @ ys) = nsent ys"
  by (induction xs) (auto simp: nsent_def)

lemma denormalizeLoop_subst:
  "ValidString s \<Longrightarrow> nsent s + i \<le> length names \<Longrightarrow>
   denormalizeLoop s names i acc = Inr (acc @ substNames s (drop i names))"
proof (induction s names i acc rule: denormalizeLoop.induct)
  case (1 s names i acc)
  show ?case
  proof (cases "s = []")
    case True
    then show ?thesis by (subst denormalizeLoop.simps) simp
  next
    case ne: False
    with "1.prems"(1) have w0: "runeWidth s \<noteq> 0" and v: "ValidString (drop (runeWidth s) s)"
      by (subst (asm) ValidString.simps, simp split: if_splits)+
    show ?thesis
    proof (cases "hd s = CHR '':'' \<or> hd s = CHR ''*''")
      case True
      then have wild: "isWild (hd s)" by (simp add: isWild_def)
      from ne obtain c cs where s: "s = c # cs" by (cases s) auto
      from runeWidth_wild [OF ne wild] v s have v': "ValidString (tl s)" by simp
      from wild s have ns: "nsent s = Suc (nsent cs)" by (simp add: nsent_def)
      with "1.prems"(2) have lt: "i < length names" and le: "nsent (tl s) + (i + 1) \<le> length names"
        by (simp_all add: s)
      from "1.IH"(2) [OF ne w0 True lt v' le]
      have "denormalizeLoop (tl s) names (i + 1) (acc @ names ! i)
              = Inr ((acc @ names ! i) @ substNames (tl s) (drop (i + 1) names))" .
      moreover from lt have "drop i names = names ! i # drop (i + 1) names"
        by (simp add: Cons_nth_drop_Suc)
      ultimately show ?thesis
        using ne w0 True lt wild s by (subst denormalizeLoop.simps) simp
    next
      case False
      then have nw: "\<not> isWild (hd s)" by (simp add: isWild_def)
      let ?w = "runeWidth s"
      from w0 nw have lit: "\<forall>c \<in> set (take ?w s). \<not> isWild c" by (intro rune_nowild) simp_all
      have sp: "s = take ?w s @ drop ?w s" by simp
      from nsent_append_lit [OF lit, of "drop ?w s"] have "nsent (drop ?w s) = nsent s" by simp
      with "1.prems"(2) have le: "nsent (drop ?w s) + i \<le> length names" by simp
      from "1.IH"(3) [OF ne w0 False v le]
      have "denormalizeLoop (drop ?w s) names i (acc @ take ?w s)
              = Inr ((acc @ take ?w s) @ substNames (drop ?w s) (drop i names))" .
      moreover from substNames_append [OF lit, of "drop ?w s" "drop i names"]
      have "substNames s (drop i names) = take ?w s @ substNames (drop ?w s) (drop i names)" by simp
      ultimately show ?thesis
        using ne w0 False by (subst denormalizeLoop.simps) simp
    qed
  qed
qed

lemma wild_case:
  assumes k: "scanName (drop (Suc start) chars) = Inr k" and lt: "start < length chars"
  shows "Suc (start + k) \<le> length chars"
    and "filter (\<lambda>c. \<not> isWild c) (drop (Suc start) chars)
         = take k (drop (Suc start) chars) @ filter (\<lambda>c. \<not> isWild c) (drop (Suc (start + k)) chars)"
proof -
  let ?cs = "drop (Suc start) chars"
  let ?P = "\<lambda>c. \<not> isWild c"
  from scanName_props [OF k] have kl: "k \<le> length ?cs" by (rule conjunct1)
  from scanName_props [OF k] have kn: "\<forall>x \<in> set (take k ?cs). \<not> isWild x \<and> x \<noteq> CHR ''/''"
    by (rule conjunct2 [THEN conjunct2])
  from kl lt show "Suc (start + k) \<le> length chars" by simp
  have d: "drop k ?cs = drop (Suc (start + k)) chars" by (simp add: add.commute)
  from kn have f: "filter ?P (take k ?cs) = take k ?cs" by (intro filter_True) blast
  have "filter ?P (take k ?cs @ drop k ?cs) = filter ?P (take k ?cs) @ filter ?P (drop k ?cs)"
    by (rule filter_append)
  then have "filter ?P ?cs = filter ?P (take k ?cs) @ filter ?P (drop k ?cs)"
    by (simp only: append_take_drop_id)
  with f d show "filter ?P ?cs = take k ?cs @ filter ?P (drop (Suc (start + k)) chars)"
    by (simp only:)
qed

lemma normalizeLoop_subst:
  "normalizeLoop chars start acc names = Inr (np, ns) \<Longrightarrow> start \<le> length chars \<Longrightarrow>
   \<exists>np' ns'. np = acc @ np' \<and> ns = names @ ns' \<and> length ns' = nsent np'
     \<and> substNames np' ns' = filter (\<lambda>c. \<not> isWild c) (drop start chars)"
proof (induction chars start acc names rule: normalizeLoop.induct)
  case (1 chars start acc names)
  let ?P = "\<lambda>c. \<not> isWild c"
  show ?case
  proof (cases "start < length chars")
    case False
    with "1.prems" have "np = acc" "ns = names" by (subst (asm) normalizeLoop.simps, simp)+
    moreover from False have "drop start chars = []" by simp
    ultimately have "np = acc @ [] \<and> ns = names @ [] \<and> length ([] :: string list) = nsent []
        \<and> substNames [] [] = filter ?P (drop start chars)"
      by (simp add: nsent_def)
    then show ?thesis by blast
  next
    case lt: True
    let ?c = "chars ! start"
    from lt have dr: "drop start chars = ?c # drop (Suc start) chars"
      by (simp add: Cons_nth_drop_Suc)
    show ?thesis
    proof (cases "?c \<noteq> CHR '':'' \<and> ?c \<noteq> CHR ''*''")
      case True
      then have nw: "\<not> isWild ?c" by (simp add: isWild_def)
      from True lt "1.prems" have r: "normalizeLoop chars (start + 1) (acc @ [?c]) names = Inr (np, ns)"
        by (subst (asm) normalizeLoop.simps) (simp add: Let_def)
      from lt have le: "start + 1 \<le> length chars" by simp
      from "1.IH"(1) [OF lt refl refl True r le]
      obtain np' ns' where IH: "np = (acc @ [?c]) @ np'" "ns = names @ ns'"
        "length ns' = nsent np'"
        "substNames np' ns' = filter ?P (drop (start + 1) chars)" by blast
      from IH(1) have a: "np = acc @ (?c # np')" by simp
      from IH(3) nw have b: "length ns' = nsent (?c # np')" by (simp add: nsent_def)
      from IH(4) nw have "substNames (?c # np') ns' = ?c # filter ?P (drop (Suc start) chars)"
        by simp
      also from nw have "\<dots> = filter ?P (?c # drop (Suc start) chars)" by simp
      finally have c: "substNames (?c # np') ns' = filter ?P (drop start chars)"
        by (simp only: dr)
      from a IH(2) b c show ?thesis by blast
    next
      case False
      then have w: "isWild ?c" by (auto simp: isWild_def)
      from lt False "1.prems" obtain k where k: "scanName (drop (start + 1) chars) = Inr k"
        by (subst (asm) normalizeLoop.simps) (auto simp: Let_def split: sum.splits)
      let ?te = "start + 1 + k"
      let ?nm = "take (?te - (start + 1)) (drop (start + 1) chars)"
      from lt False "1.prems" k
      have c1: "?te \<noteq> start + 1"
        and c2: "\<not> (?c = CHR ''*'' \<and> 1 < start \<and> chars ! (start - 1) \<noteq> CHR ''/'')"
        and c3: "\<not> (?c = CHR ''*'' \<and> ?te \<noteq> length chars)"
        and r: "normalizeLoop chars ?te (acc @ [?c]) (names @ [?nm]) = Inr (np, ns)"
        by (subst (asm) normalizeLoop.simps, simp add: Let_def split: if_splits)+
      from k have k': "scanName (drop (Suc start) chars) = Inr k" by simp
      from wild_case(1) [OF k' lt] have le: "?te \<le> length chars" by simp
      have nm: "?nm = take k (drop (Suc start) chars)" by simp
      have te: "drop ?te chars = drop (Suc (start + k)) chars" by simp
      from "1.IH"(2) [OF lt refl refl False k refl c1 c2 c3 r le]
      obtain np' ns' where IH: "np = (acc @ [?c]) @ np'" "ns = (names @ [?nm]) @ ns'"
        "length ns' = nsent np'"
        "substNames np' ns' = filter ?P (drop ?te chars)" by blast
      from IH(1) have a: "np = acc @ (?c # np')" by simp
      from IH(2) have b: "ns = names @ (?nm # ns')" by simp
      from IH(3) w have c: "length (?nm # ns') = nsent (?c # np')" by (simp add: nsent_def)
      from w have "substNames (?c # np') (?nm # ns') = ?nm @ substNames np' ns'" by simp
      also have "\<dots> = take k (drop (Suc start) chars) @ filter ?P (drop (Suc (start + k)) chars)"
        by (simp only: IH(4) nm te)
      also from wild_case(2) [OF k' lt] have "\<dots> = filter ?P (drop (Suc start) chars)"
        by (simp only:)
      also from w have "\<dots> = filter ?P (?c # drop (Suc start) chars)" by simp
      finally have d: "substNames (?c # np') (?nm # ns') = filter ?P (drop start chars)"
        by (simp only: dr)
      from a b c d show ?thesis by blast
    qed
  qed
qed

text \<open>
  C6, as the code has it: \<open>denormalizePath\<close> replaces each wildcard character of the
  normalized path by the name alone, as the test \<open>TestTreeDenormalizePath\<close> expects, so for
  a pattern that \<open>normalizePath\<close> accepts, and whose normalized path is well-formed UTF-8,
  it returns the pattern without its \<open>:\<close> and \<open>*\<close> characters, and does not panic. For a
  pattern without wildcards that is the pattern itself.
\<close>

theorem denormalize_normalize_drops_introducers:
  assumes "normalizePath p = Inr (np, names)" and "ValidString np"
  shows "denormalizePath np names = Inr (filter (\<lambda>c. c \<noteq> CHR '':'' \<and> c \<noteq> CHR ''*'') p)"
proof -
  from assms(1) have "normalizeLoop p 0 [] [] = Inr (np, names)" by (simp add: normalizePath_def)
  from normalizeLoop_subst [OF this]
  obtain np' ns' where "np = [] @ np'" "names = [] @ ns'" "length ns' = nsent np'"
    "substNames np' ns' = filter (\<lambda>c. \<not> isWild c) (drop 0 p)" by blast
  then have l: "nsent np + 0 \<le> length names"
    and s: "substNames np names = filter (\<lambda>c. \<not> isWild c) p" by simp_all
  from denormalizeLoop_subst [OF assms(2) l, of "[]"] s show ?thesis
    by (simp add: denormalizePath_def isWild_def)
qed

text \<open>
  The theorem at \<open>/a/:id/b/*rest\<close>, which comes back as \<open>/a/id/b/rest\<close>, and at a pattern
  with a two-byte character before a parameter.
\<close>

theorem denormalize_normalize_drops_introducers_witness:
  "denormalizePath ''/a/:/b/*'' [''id'', ''rest''] = Inr ''/a/id/b/rest''
   \<and> denormalizePath [CHR ''/'', CHR 0xC3, CHR 0xA9, CHR ''/'', CHR '':''] [''n'']
       = Inr [CHR ''/'', CHR 0xC3, CHR 0xA9, CHR ''/'', CHR ''n'']"
proof -
  have 1: "normalizePath ''/a/:id/b/*rest'' = Inr (''/a/:/b/*'', [''id'', ''rest''])" by code_simp
  have 2: "ValidString ''/a/:/b/*''" by code_simp
  have 3: "normalizePath [CHR ''/'', CHR 0xC3, CHR 0xA9, CHR ''/'', CHR '':'', CHR ''n'']
             = Inr ([CHR ''/'', CHR 0xC3, CHR 0xA9, CHR ''/'', CHR '':''], [''n''])" by code_simp
  have 4: "ValidString [CHR ''/'', CHR 0xC3, CHR 0xA9, CHR ''/'', CHR '':'']" by code_simp
  from denormalize_normalize_drops_introducers [OF 1 2]
    denormalize_normalize_drops_introducers [OF 3 4]
  show ?thesis by simp
qed

text \<open>
  C6 as stated fails at \<open>/a/:b\<close>, which comes back as \<open>/a/b\<close>, and at a pattern with the
  byte \<open>0xFF\<close>, which is not well-formed UTF-8 and comes back as the three bytes of U+FFFD.
\<close>

theorem denormalize_not_inverse:
  "normalizePath ''/a/:b'' = Inr (''/a/:'', [''b''])
   \<and> denormalizePath ''/a/:'' [''b''] = Inr ''/a/b''
   \<and> normalizePath [CHR ''/'', CHR 0xFF] = Inr ([CHR ''/'', CHR 0xFF], [])
   \<and> denormalizePath [CHR ''/'', CHR 0xFF] [] = Inr [CHR ''/'', CHR 0xEF, CHR 0xBF, CHR 0xBD]"
  by code_simp

end
